theory Spec2Isabelle
  imports Complex_Main "HOL-Library.Multiset" "HOL-Library.Word" "HOL-Library.AList"
begin

unbundle bit_operations_syntax

section \<open>Tower-Sort engine (SortingGame/gameLogic.ts)\<close>

subsection \<open>Data model\<close>

text \<open>
  A ring is an identity and a colour tag, a peg is a list of rings written bottom to
  top (the last element is the top ring), the game state is a list of pegs.
\<close>

record Ring =
  ring_id :: string
  color :: string

record DifficultyConfig =
  pegs :: nat
  height :: nat
  colors :: nat

datatype DifficultyLevel = Easy | Medium | Hard | Extreme | Insane

datatype MoveResult = Ok | Invalid | Win | Deadlock

text \<open>Reading a property of \<open>undefined\<close> raises a TypeError in the source language.\<close>

datatype error = TypeError

fun DIFFICULTY_LEVELS :: "DifficultyLevel \<Rightarrow> DifficultyConfig" where
  "DIFFICULTY_LEVELS Easy = \<lparr>pegs = 7, height = 7, colors = 5\<rparr>"
| "DIFFICULTY_LEVELS Medium = \<lparr>pegs = 8, height = 8, colors = 6\<rparr>"
| "DIFFICULTY_LEVELS Hard = \<lparr>pegs = 9, height = 9, colors = 7\<rparr>"
| "DIFFICULTY_LEVELS Extreme = \<lparr>pegs = 10, height = 10, colors = 8\<rparr>"
| "DIFFICULTY_LEVELS Insane = \<lparr>pegs = 14, height = 8, colors = 6\<rparr>"

definition ALL_COLORS :: "string list" where
  "ALL_COLORS = [''#f44336'', ''#ff9800'', ''#ffc107'', ''#4caf50'',
                 ''#2196f3'', ''#9c27b0'', ''#e5e5e5'', ''#323232'']"

text \<open>
  The object state of \<open>SortingGameLogic\<close>. The injected generator \<open>_random\<close> is a
  stateful closure; it is modelled as the sequence of the values it returns
  (a function from the call number to the value, passed to the operations that draw
  from it) together with the number of calls made so far, kept in \<open>randomCalls\<close>.
\<close>

record SortingGameLogic =
  state :: "Ring list list"
  history :: "Ring list list list"
  config :: DifficultyConfig
  gcolors :: "string list"
  nextRingId :: nat
  randomCalls :: nat

definition maxHistorySize :: nat where
  "maxHistorySize = 200"

subsection \<open>Utility functions\<close>

text \<open>Decimal rendering of a number inside a template string.\<close>

function numberToString :: "nat \<Rightarrow> string" where
  "numberToString n =
     (if n < 10 then [char_of (48 + n)]
      else numberToString (n div 10) @ [char_of (48 + n mod 10)])"
  by pat_completeness auto
termination
  by (relation "measure id") auto

declare numberToString.simps [simp del]

definition generateRingId :: "nat \<Rightarrow> string" where
  "generateRingId n = ''ring-'' @ numberToString n"

text \<open>
  The destructuring swap \<open>[a[i], a[j]] = [a[j], a[i]]\<close>: both reads happen first,
  then position \<open>i\<close> is written, then position \<open>j\<close>.
\<close>

definition swapAt :: "'a list \<Rightarrow> nat \<Rightarrow> nat \<Rightarrow> 'a list" where
  "swapAt xs i j = (let vj = xs ! j; vi = xs ! i in (xs[i := vj])[j := vi])"

text \<open>
  \<open>shuffleArray\<close>: the loop runs \<open>i\<close> from \<open>length - 1\<close> down to 1; the
  \<open>k\<close>-th value of the generator picks \<open>j = floor (random () * (i + 1))\<close>.
  The product is exact here; the product of the code, in doubles, can round to the
  next index, and stays between 0 and \<open>i\<close> as well.
  The function returns the shuffled copy and the number of calls made.
\<close>

fun shuffleLoop :: "(nat \<Rightarrow> rat) \<Rightarrow> nat \<Rightarrow> nat \<Rightarrow> 'a list \<Rightarrow> 'a list \<times> nat" where
  "shuffleLoop random k 0 result = (result, k)"
| "shuffleLoop random k (Suc i') result =
     (let i = Suc i';
          j = nat \<lfloor>random k * of_nat (i + 1)\<rfloor>
      in shuffleLoop random (k + 1) i' (swapAt result i j))"

definition shuffleArray :: "(nat \<Rightarrow> rat) \<Rightarrow> nat \<Rightarrow> 'a list \<Rightarrow> 'a list \<times> nat" where
  "shuffleArray random k array = shuffleLoop random k (length array - 1) array"

text \<open>
  \<open>getTopBlockSize\<close>: 0 on an empty peg, otherwise 1 plus the number of rings
  directly below the top one that carry its colour, counted downwards until the
  first ring of another colour.
\<close>

fun countBelow :: "string \<Rightarrow> Ring list \<Rightarrow> nat" where
  "countBelow topColor [] = 0"
| "countBelow topColor (r # below) =
     (if color r = topColor then Suc (countBelow topColor below) else 0)"

definition getTopBlockSize :: "Ring list \<Rightarrow> nat" where
  "getTopBlockSize peg =
     (if length peg = 0 then 0
      else 1 + countBelow (color (last peg)) (tl (rev peg)))"

subsection \<open>Operations of the class\<close>

text \<open>
  \<open>this._state[i]\<close> for a number \<open>i\<close>: the peg when \<open>i\<close> is an index of the
  array, \<open>undefined\<close> (here \<open>None\<close>) otherwise.
\<close>

definition pegAt :: "Ring list list \<Rightarrow> int \<Rightarrow> Ring list option" where
  "pegAt st i = (if 0 \<le> i \<and> i < int (length st) then Some (st ! nat i) else None)"

text \<open>
  \<open>canMove\<close>. The source is read with optional chaining (\<open>source?.length\<close>), so a
  missing source peg gives \<open>false\<close>; the target is read with \<open>target.length\<close>,
  which raises a TypeError when the target peg is missing.
\<close>

definition canMove :: "SortingGameLogic \<Rightarrow> int \<Rightarrow> int \<Rightarrow> error + bool" where
  "canMove g from to =
     (let source = pegAt (state g) from;
          target = pegAt (state g) to
      in case source of
           None \<Rightarrow> Inr False
         | Some src \<Rightarrow>
             if length src = 0 then Inr False
             else
               let topColor = color (last src);
                   blockSize = getTopBlockSize src
               in case target of
                    None \<Rightarrow> Inl TypeError
                  | Some tgt \<Rightarrow>
                      if length tgt > 0 \<and> color (last tgt) \<noteq> topColor then Inr False
                      else if length tgt + blockSize > height (config g) then Inr False
                      else Inr True)"

text \<open>
  \<open>pushHistory\<close>: a deep copy of the state is appended; when the history grows
  beyond \<open>maxHistorySize\<close> its first (oldest) entry is removed.
\<close>

definition pushHistory :: "SortingGameLogic \<Rightarrow> SortingGameLogic" where
  "pushHistory g =
     (let copy = map (\<lambda>peg. map (\<lambda>r. \<lparr>ring_id = ring_id r, color = color r\<rparr>) peg) (state g);
          h = history g @ [copy]
      in g\<lparr>history := (if length h > maxHistorySize then tl h else h)\<rparr>)"

text \<open>
  \<open>checkWin\<close>. \<open>colorCounts\<close> is a dictionary from colours to counts; the loop over
  the pegs returns \<open>false\<close> (here \<open>None\<close>) at the first peg that is neither empty
  nor full and single-coloured.
\<close>

fun countPegs :: "nat \<Rightarrow> Ring list list \<Rightarrow> (string \<rightharpoonup> nat) \<Rightarrow> (string \<rightharpoonup> nat) option" where
  "countPegs h [] colorCounts = Some colorCounts"
| "countPegs h (peg # rest) colorCounts =
     (if length peg = 0 then countPegs h rest colorCounts
      else if length peg \<noteq> h then None
      else
        let pegColor = color (hd peg)
        in if \<not> list_all (\<lambda>r. color r = pegColor) peg then None
           else countPegs h rest
                  (colorCounts(pegColor \<mapsto>
                     (case colorCounts pegColor of None \<Rightarrow> 0 | Some n \<Rightarrow> n) + 1)))"

definition checkWin :: "SortingGameLogic \<Rightarrow> bool" where
  "checkWin g =
     (let pegsPerColor = (of_nat (pegs (config g)) - 2) / of_nat (length (gcolors g)) :: rat
      in case countPegs (height (config g)) (state g) Map.empty of
           None \<Rightarrow> False
         | Some colorCounts \<Rightarrow>
             list_all (\<lambda>c. case colorCounts c of
                              None \<Rightarrow> False
                            | Some n \<Rightarrow> of_nat n = pegsPerColor) (gcolors g))"

text \<open>
  \<open>getHint\<close> and \<open>isDeadlocked\<close> scan the ordered pairs of peg indices, sources in
  the outer loop and targets in the inner one, and stop at the first legal move.
  Both indices are indices of the state, where \<open>canMove\<close> does not raise.
\<close>

definition movePairs :: "SortingGameLogic \<Rightarrow> (nat \<times> nat) list" where
  "movePairs g =
     concat (map (\<lambda>from. map (\<lambda>to. (from, to))
                          (filter (\<lambda>to. from \<noteq> to) [0..<length (state g)]))
                 [0..<length (state g)])"

definition getHint :: "SortingGameLogic \<Rightarrow> (nat \<times> nat) option" where
  "getHint g =
     find (\<lambda>(from, to). canMove g (int from) (int to) = Inr True) (movePairs g)"

definition isDeadlocked :: "SortingGameLogic \<Rightarrow> bool" where
  "isDeadlocked g =
     (find (\<lambda>(from, to). canMove g (int from) (int to) = Inr True) (movePairs g) = None)"

text \<open>
  \<open>move\<close>. After a successful \<open>canMove\<close> both indices are indices of the state.
  The block is cut from the source peg first (\<open>splice\<close>) and appended to the target
  peg afterwards (\<open>push\<close>), in this order, also when source and target coincide.
\<close>

definition move :: "SortingGameLogic \<Rightarrow> int \<Rightarrow> int \<Rightarrow> error + (MoveResult \<times> SortingGameLogic)" where
  "move g from to =
     (case canMove g from to of
        Inl e \<Rightarrow> Inl e
      | Inr False \<Rightarrow> Inr (Invalid, g)
      | Inr True \<Rightarrow>
          let g1 = pushHistory g;
              source = state g1 ! nat from;
              blockSize = getTopBlockSize source;
              moving = drop (length source - blockSize) source;
              st1 = (state g1)[nat from := take (length source - blockSize) source];
              st2 = st1[nat to := st1 ! nat to @ moving];
              g2 = g1\<lparr>state := st2\<rparr>
          in if checkWin g2 then Inr (Win, g2)
             else if isDeadlocked g2 then Inr (Deadlock, g2)
             else Inr (Ok, g2))"

text \<open>\<open>undo\<close>: pops the newest snapshot, if there is one, and makes it the state.\<close>

definition undo :: "SortingGameLogic \<Rightarrow> bool \<times> SortingGameLogic" where
  "undo g =
     (if length (history g) = 0 then (False, g)
      else (True, g\<lparr>state := last (history g), history := butlast (history g)\<rparr>))"

text \<open>
  \<open>createInitialState\<close>: the pool of rings with fresh identities and colours dealt
  round-robin, shuffled, then dealt peg by peg into all pegs but the last two.
\<close>

fun dealPegs :: "nat \<Rightarrow> nat \<Rightarrow> nat \<Rightarrow> nat \<Rightarrow> 'a list \<Rightarrow> 'a list list" where
  "dealPegs npegs h p 0 shuffled = []"
| "dealPegs npegs h p (Suc todo) shuffled =
     (if p + 2 \<ge> npegs then [] # dealPegs npegs h (p + 1) todo shuffled
      else take h shuffled # dealPegs npegs h (p + 1) todo (drop h shuffled))"

definition ringsPool :: "SortingGameLogic \<Rightarrow> Ring list" where
  "ringsPool g =
     map (\<lambda>i. \<lparr>ring_id = generateRingId (nextRingId g + i),
               color = gcolors g ! (i mod length (gcolors g))\<rparr>)
         [0..<(pegs (config g) - 2) * height (config g)]"

definition createInitialState ::
  "(nat \<Rightarrow> rat) \<Rightarrow> SortingGameLogic \<Rightarrow> Ring list list \<times> SortingGameLogic" where
  "createInitialState random g =
     (let totalSlots = (pegs (config g) - 2) * height (config g);
          pool = ringsPool g;
          (shuffled, k) = shuffleArray random (randomCalls g) pool
      in (dealPegs (pegs (config g)) (height (config g)) 0 (pegs (config g)) shuffled,
          g\<lparr>nextRingId := nextRingId g + totalSlots, randomCalls := k\<rparr>))"

definition reset :: "(nat \<Rightarrow> rat) \<Rightarrow> SortingGameLogic \<Rightarrow> SortingGameLogic" where
  "reset random g =
     (let (st, g1) = createInitialState random g
      in g1\<lparr>state := st, history := []\<rparr>)"

definition newSortingGameLogic :: "DifficultyLevel \<Rightarrow> (nat \<Rightarrow> rat) \<Rightarrow> SortingGameLogic" where
  "newSortingGameLogic difficulty random =
     reset random
       \<lparr>state = [], history = [], config = DIFFICULTY_LEVELS difficulty,
        gcolors = take (colors (DIFFICULTY_LEVELS difficulty)) ALL_COLORS,
        nextRingId = 0, randomCalls = 0\<rparr>"

text \<open>
  A call of a public operation on the object. An operation that raises leaves the
  object as it was before the call.
\<close>

datatype call = Move int int | Undo | Reset | GetHint | CheckWin

fun perform :: "(nat \<Rightarrow> rat) \<Rightarrow> SortingGameLogic \<Rightarrow> call \<Rightarrow> SortingGameLogic" where
  "perform random g (Move from to) =
     (case move g from to of Inl e \<Rightarrow> g | Inr (res, g') \<Rightarrow> g')"
| "perform random g Undo = snd (undo g)"
| "perform random g Reset = reset random g"
| "perform random g GetHint = g"
| "perform random g CheckWin = g"

definition performAll :: "(nat \<Rightarrow> rat) \<Rightarrow> SortingGameLogic \<Rightarrow> call list \<Rightarrow> SortingGameLogic" where
  "performAll random g calls = foldl (perform random) g calls"

section \<open>Tile-Gradient engine (GradientGame/gameLogic.ts)\<close>

text \<open>
  A tile carries its identity, its colour, the index of its solved position and the
  anchor flag. Of a level the engine reads the grid size, the four corner colours and
  the list of anchor indices; the display hints of a level (name, tile shape, gap) are
  not read by the engine and are left out.
\<close>

record Tile =
  tile_id :: string
  tile_color :: string
  correctIndex :: nat
  isAnchor :: bool

record CornerColors =
  topLeft :: string
  topRight :: string
  bottomLeft :: string
  bottomRight :: string

record LevelConfig =
  level_id :: string
  cols :: nat
  rows :: nat
  corner_colors :: CornerColors
  anchors :: "nat list"

text \<open>
  \<open>generateTiles\<close>. The colour of a tile is the bilinear interpolation of the four
  corner colours at the normalised position of the tile, computed in floating point and
  rendered as a hex string; this colour arithmetic is the parameter
  \<open>bilinearInterpolate\<close> of the model, applied to the corner colours and the position.
\<close>

definition generateTiles :: "(CornerColors \<Rightarrow> rat \<Rightarrow> rat \<Rightarrow> string) \<Rightarrow> LevelConfig \<Rightarrow> Tile list" where
  "generateTiles bilinearInterpolate level =
     map (\<lambda>i.
            let row = i div cols level;
                col = i mod cols level;
                x = (if cols level = 1 then 0 else of_nat col / (of_nat (cols level) - 1));
                y = (if rows level = 1 then 0 else of_nat row / (of_nat (rows level) - 1))
            in \<lparr>tile_id = ''tile-'' @ numberToString i,
                tile_color = bilinearInterpolate (corner_colors level) x y,
                correctIndex = i,
                isAnchor = (i \<in> set (anchors level))\<rparr>)
         [0..<cols level * rows level]"

text \<open>\<open>checkComplete\<close>: every tile sits at the index that is its \<open>correctIndex\<close>.\<close>

definition checkComplete :: "Tile list \<Rightarrow> bool" where
  "checkComplete tiles =
     list_all (\<lambda>(tile, index). correctIndex tile = index) (zip tiles [0..<length tiles])"

text \<open>
  \<open>shuffleTiles\<close>. \<open>Math.random\<close> is modelled, like the injected generator of the
  Tower-Sort engine, by the sequence of the values it returns. The Fisher-Yates loop
  runs over the positions of the list of non-anchor indices; afterwards a solved
  result is broken by exchanging the tiles at the first two non-anchor indices.
\<close>

fun shuffleTilesLoop ::
  "(nat \<Rightarrow> rat) \<Rightarrow> nat \<Rightarrow> nat list \<Rightarrow> nat \<Rightarrow> Tile list \<Rightarrow> Tile list" where
  "shuffleTilesLoop random k nonAnchorIndices 0 result = result"
| "shuffleTilesLoop random k nonAnchorIndices (Suc i') result =
     (let i = Suc i';
          j = nat \<lfloor>random k * of_nat (i + 1)\<rfloor>;
          indexI = nonAnchorIndices ! i;
          indexJ = nonAnchorIndices ! j
      in shuffleTilesLoop random (k + 1) nonAnchorIndices i' (swapAt result indexI indexJ))"

definition shuffleTiles :: "(nat \<Rightarrow> rat) \<Rightarrow> Tile list \<Rightarrow> Tile list" where
  "shuffleTiles random tiles =
     (let nonAnchorIndices = filter (\<lambda>i. \<not> isAnchor (tiles ! i)) [0..<length tiles];
          result = shuffleTilesLoop random 0 nonAnchorIndices (length nonAnchorIndices - 1) tiles;
          isSolved = list_all (\<lambda>(tile, index). correctIndex tile = index)
                              (zip result [0..<length result])
      in if isSolved \<and> length nonAnchorIndices \<ge> 2
         then swapAt result (nonAnchorIndices ! 0) (nonAnchorIndices ! 1)
         else result)"

text \<open>
  \<open>swapTiles\<close>. \<open>tiles[i].isAnchor\<close> raises a TypeError when \<open>i\<close> is not an index of
  the array; the second operand of \<open>||\<close> is evaluated only when the first is false.
\<close>

definition tileAt :: "Tile list \<Rightarrow> int \<Rightarrow> Tile option" where
  "tileAt tiles i = (if 0 \<le> i \<and> i < int (length tiles) then Some (tiles ! nat i) else None)"

definition swapTiles :: "Tile list \<Rightarrow> int \<Rightarrow> int \<Rightarrow> error + Tile list option" where
  "swapTiles tiles indexA indexB =
     (case tileAt tiles indexA of
        None \<Rightarrow> Inl TypeError
      | Some tileA \<Rightarrow>
          if isAnchor tileA then Inr None
          else (case tileAt tiles indexB of
                  None \<Rightarrow> Inl TypeError
                | Some tileB \<Rightarrow>
                    if isAnchor tileB then Inr None
                    else Inr (Some (swapAt tiles (nat indexA) (nat indexB)))))"

section \<open>Falling-Piece layout engine (TetrisPuzzle/gameLogic.ts)\<close>

text \<open>
  The seven piece kinds (the keys \<open>I\<close>, \<open>O\<close>, \<open>T\<close>, \<open>S\<close>, \<open>Z\<close>, \<open>J\<close>, \<open>L\<close> of
  \<open>TETROMINO_SHAPES\<close>) and, for each, the four rotations as lists of (row, column)
  offsets.
\<close>

datatype TetrominoType = I_piece | O_piece | T_piece | S_piece | Z_piece | J_piece | L_piece

fun TETROMINO_SHAPES :: "TetrominoType \<Rightarrow> (int \<times> int) list list" where
  "TETROMINO_SHAPES I_piece =
     [[(0, 0), (0, 1), (0, 2), (0, 3)],
      [(0, 0), (1, 0), (2, 0), (3, 0)],
      [(0, 0), (0, 1), (0, 2), (0, 3)],
      [(0, 0), (1, 0), (2, 0), (3, 0)]]"
| "TETROMINO_SHAPES O_piece =
     [[(0, 0), (0, 1), (1, 0), (1, 1)],
      [(0, 0), (0, 1), (1, 0), (1, 1)],
      [(0, 0), (0, 1), (1, 0), (1, 1)],
      [(0, 0), (0, 1), (1, 0), (1, 1)]]"
| "TETROMINO_SHAPES T_piece =
     [[(0, 0), (0, 1), (0, 2), (1, 1)],
      [(0, 0), (1, 0), (1, 1), (2, 0)],
      [(0, 1), (1, 0), (1, 1), (1, 2)],
      [(0, 1), (1, 0), (1, 1), (2, 1)]]"
| "TETROMINO_SHAPES S_piece =
     [[(0, 1), (0, 2), (1, 0), (1, 1)],
      [(0, 0), (1, 0), (1, 1), (2, 1)],
      [(0, 1), (0, 2), (1, 0), (1, 1)],
      [(0, 0), (1, 0), (1, 1), (2, 1)]]"
| "TETROMINO_SHAPES Z_piece =
     [[(0, 0), (0, 1), (1, 1), (1, 2)],
      [(0, 1), (1, 0), (1, 1), (2, 0)],
      [(0, 0), (0, 1), (1, 1), (1, 2)],
      [(0, 1), (1, 0), (1, 1), (2, 0)]]"
| "TETROMINO_SHAPES J_piece =
     [[(0, 0), (1, 0), (1, 1), (1, 2)],
      [(0, 0), (0, 1), (1, 0), (2, 0)],
      [(0, 0), (0, 1), (0, 2), (1, 2)],
      [(0, 1), (1, 1), (2, 0), (2, 1)]]"
| "TETROMINO_SHAPES L_piece =
     [[(0, 2), (1, 0), (1, 1), (1, 2)],
      [(0, 0), (1, 0), (2, 0), (2, 1)],
      [(0, 0), (0, 1), (0, 2), (1, 0)],
      [(0, 0), (0, 1), (1, 1), (2, 1)]]"

text \<open>An entry of the layout: the piece kind, its rotation and the cells it covers.\<close>

record LayoutPiece =
  ptype :: TetrominoType
  layoutRotation :: nat
  cells :: "(int \<times> int) list"

text \<open>
  \<open>mulberry32\<close>. The closure keeps the running \<open>seed\<close>, a number that grows by
  \<open>0x6D2B79F5\<close> with each call (integer arithmetic, taken as exact); the bitwise
  operators and \<open>Math.imul\<close> work on its low 32 bits. One call returns the value,
  a fraction with denominator \<open>4294967296\<close>, and the new seed.
\<close>

definition mulberry32 :: "int \<Rightarrow> rat \<times> int" where
  "mulberry32 seed =
     (let seed' = seed + 0x6D2B79F5;
          t0 = (word_of_int seed' :: 32 word);
          t1 = (t0 XOR drop_bit 15 t0) * (t0 OR 1);
          t2 = t1 XOR (t1 + (t1 XOR drop_bit 7 t1) * (t1 OR 61))
      in (of_nat (unat (t2 XOR drop_bit 14 t2)) / 4294967296, seed'))"

text \<open>
  The shuffles are \<open>array.sort(() => random() - 0.5)\<close>. The comparator ignores its
  arguments, so the sort procedure of the host sees only the length of the array and
  the successive comparator results, and which arrangement it returns on such
  results is left to the host. The procedure is a parameter of the model: from the
  length and the sequence of comparator results it gives the arrangement, as the
  list of the original positions in their new order, and the number of comparator
  calls it made. The sequence of comparator results is the one of the generator from
  its current seed on.
\<close>

type_synonym sortProcedure = "nat \<Rightarrow> (nat \<Rightarrow> rat) \<Rightarrow> nat list \<times> nat"

definition comparatorResults :: "int \<Rightarrow> nat \<Rightarrow> rat" where
  "comparatorResults seed i = fst (mulberry32 (seed + int i * 0x6D2B79F5)) - 1 / 2"

definition sortRandom :: "sortProcedure \<Rightarrow> 'a list \<Rightarrow> int \<Rightarrow> 'a list \<times> int" where
  "sortRandom arraySort xs seed =
     (let (arrangement, calls) = arraySort (length xs) (comparatorResults seed)
      in (map (\<lambda>p. xs ! p) arrangement, seed + int calls * 0x6D2B79F5))"

text \<open>
  The occupancy grid \<open>used\<close>, a list of rows of booleans. Every read and write of the
  modelled code is guarded so that its row and column are inside the field.
\<close>

definition usedAt :: "bool list list \<Rightarrow> int \<Rightarrow> int \<Rightarrow> bool" where
  "usedAt used r c = used ! nat r ! nat c"

definition setUsed :: "bool list list \<Rightarrow> int \<Rightarrow> int \<Rightarrow> bool list list" where
  "setUsed used r c = used[nat r := (used ! nat r)[nat c := True]]"

definition markCells :: "bool list list \<Rightarrow> (int \<times> int) list \<Rightarrow> bool list list" where
  "markCells used cs = foldl (\<lambda>u (r, c). setUsed u r c) used cs"

definition emptyField :: "nat \<Rightarrow> nat \<Rightarrow> bool list list" where
  "emptyField fieldWidth fieldHeight = replicate fieldHeight (replicate fieldWidth False)"

text \<open>
  \<open>isPieceGrounded\<close>. \<open>columnBottoms\<close> is the insertion-ordered map from the columns
  of the piece to the largest row of the piece in that column, here an association
  list; the piece is grounded when each such bottom cell is in the last row or has a
  used cell directly below.
\<close>

definition bottomStep :: "(int \<times> int) list \<Rightarrow> int \<times> int \<Rightarrow> (int \<times> int) list" where
  "bottomStep m rc =
     (case rc of (row, col) \<Rightarrow>
        case map_of m col of
          None \<Rightarrow> AList.update col row m
        | Some current \<Rightarrow> if row > current then AList.update col row m else m)"

definition columnBottoms :: "(int \<times> int) list \<Rightarrow> (int \<times> int) list" where
  "columnBottoms cs = foldl bottomStep [] cs"

definition isPieceGrounded :: "(int \<times> int) list \<Rightarrow> bool list list \<Rightarrow> nat \<Rightarrow> bool" where
  "isPieceGrounded cs used fieldHeight =
     list_all (\<lambda>(col, bottomRow). bottomRow = int fieldHeight - 1 \<or> usedAt used (bottomRow + 1) col)
              (columnBottoms cs)"

text \<open>
  The search for a placement at the target cell \<open>(row, col)\<close>, innermost loop first:
  \<open>tryAnchors\<close> aligns each cell of the shape in turn with the target cell and
  returns the first placement whose cells are all inside the field, unused, and
  grounded; \<open>tryRotations\<close> runs through the shuffled rotations; \<open>tryTypes\<close> runs
  through the shuffled piece kinds, shuffling the rotations anew for each kind.
\<close>

fun tryAnchors ::
  "nat \<Rightarrow> nat \<Rightarrow> bool list list \<Rightarrow> int \<Rightarrow> int \<Rightarrow> (int \<times> int) list \<Rightarrow> (int \<times> int) list
     \<Rightarrow> (int \<times> int) list option" where
  "tryAnchors fieldWidth fieldHeight used row col shape [] = None"
| "tryAnchors fieldWidth fieldHeight used row col shape ((anchorDr, anchorDc) # rest) =
     (let baseRow = row - anchorDr;
          baseCol = col - anchorDc;
          cs = map (\<lambda>(dr, dc). (baseRow + dr, baseCol + dc)) shape;
          allValid = list_all (\<lambda>(nr, nc). nr \<ge> 0 \<and> nr < int fieldHeight \<and>
                                           nc \<ge> 0 \<and> nc < int fieldWidth \<and>
                                           \<not> usedAt used nr nc) cs
      in if \<not> allValid then tryAnchors fieldWidth fieldHeight used row col shape rest
         else if \<not> isPieceGrounded cs used fieldHeight
              then tryAnchors fieldWidth fieldHeight used row col shape rest
         else Some cs)"

fun tryRotations ::
  "nat \<Rightarrow> nat \<Rightarrow> bool list list \<Rightarrow> int \<Rightarrow> int \<Rightarrow> TetrominoType \<Rightarrow> nat list
     \<Rightarrow> (nat \<times> (int \<times> int) list) option" where
  "tryRotations fieldWidth fieldHeight used row col type [] = None"
| "tryRotations fieldWidth fieldHeight used row col type (rotIdx # rest) =
     (let shape = TETROMINO_SHAPES type ! rotIdx
      in case tryAnchors fieldWidth fieldHeight used row col shape shape of
           Some cs \<Rightarrow> Some (rotIdx, cs)
         | None \<Rightarrow> tryRotations fieldWidth fieldHeight used row col type rest)"

fun tryTypes ::
  "sortProcedure \<Rightarrow> nat \<Rightarrow> nat \<Rightarrow> bool list list \<Rightarrow> int \<Rightarrow> int \<Rightarrow> TetrominoType list \<Rightarrow> int
     \<Rightarrow> LayoutPiece option \<times> int" where
  "tryTypes arraySort fieldWidth fieldHeight used row col [] seed = (None, seed)"
| "tryTypes arraySort fieldWidth fieldHeight used row col (type # rest) seed =
     (let (shuffledRotations, seed1) = sortRandom arraySort [0, 1, 2, 3] seed
      in case tryRotations fieldWidth fieldHeight used row col type shuffledRotations of
           Some (rotIdx, cs) \<Rightarrow>
             (Some \<lparr>ptype = type, layoutRotation = rotIdx, cells = cs\<rparr>, seed1)
         | None \<Rightarrow> tryTypes arraySort fieldWidth fieldHeight used row col rest seed1)"

text \<open>
  One attempt of \<open>tryGenerate\<close>: its local variables are the grid, the pieces placed
  so far, the \<open>failed\<close> flag, and the seed of the generator, which runs on from one
  attempt to the next.  \<open>fillCell\<close> is the body of the two nested loops over the
  cells, scanned from the bottom row upwards and from left to right; once the
  attempt has failed both loops end, so the remaining cells change nothing.
\<close>

record attempt =
  used :: "bool list list"
  pieces :: "LayoutPiece list"
  failed :: bool
  rseed :: int

definition tetrominoTypes :: "TetrominoType list" where
  "tetrominoTypes = [I_piece, O_piece, T_piece, S_piece, Z_piece, J_piece, L_piece]"

definition fillCell :: "sortProcedure \<Rightarrow> nat \<Rightarrow> nat \<Rightarrow> attempt \<Rightarrow> int \<times> int \<Rightarrow> attempt" where
  "fillCell arraySort fieldWidth fieldHeight a rc =
     (let (row, col) = rc
      in if failed a then a
         else if usedAt (used a) row col then a
         else
           let (shuffledTypes, seed1) = sortRandom arraySort tetrominoTypes (rseed a)
           in case tryTypes arraySort fieldWidth fieldHeight (used a) row col shuffledTypes seed1 of
                (Some piece, seed2) \<Rightarrow>
                  a\<lparr>used := markCells (used a) (cells piece),
                    pieces := pieces a @ [piece],
                    rseed := seed2\<rparr>
              | (None, seed2) \<Rightarrow>
                  (if \<not> usedAt (used a) row col then a\<lparr>failed := True, rseed := seed2\<rparr>
                   else a\<lparr>rseed := seed2\<rparr>))"

definition scanOrder :: "nat \<Rightarrow> nat \<Rightarrow> (int \<times> int) list" where
  "scanOrder fieldWidth fieldHeight =
     concat (map (\<lambda>row. map (\<lambda>col. (int row, int col)) [0..<fieldWidth]) (rev [0..<fieldHeight]))"

definition isComplete :: "nat \<Rightarrow> nat \<Rightarrow> bool list list \<Rightarrow> bool" where
  "isComplete fieldWidth fieldHeight u =
     list_all (\<lambda>r. list_all (\<lambda>c. usedAt u (int r) (int c)) [0..<fieldWidth]) [0..<fieldHeight]"

text \<open>
  \<open>tryGenerate\<close>: up to \<open>maxAttempts\<close> attempts; an attempt that did not fail and
  left no cell unused returns its pieces.
\<close>

fun tryGenerate ::
  "sortProcedure \<Rightarrow> nat \<Rightarrow> nat \<Rightarrow> nat \<Rightarrow> int \<Rightarrow> LayoutPiece list option \<times> int" where
  "tryGenerate arraySort fieldWidth fieldHeight 0 seed = (None, seed)"
| "tryGenerate arraySort fieldWidth fieldHeight (Suc attemptsLeft) seed =
     (let a = foldl (fillCell arraySort fieldWidth fieldHeight)
                \<lparr>used = emptyField fieldWidth fieldHeight, pieces = [], failed = False,
                 rseed = seed\<rparr>
                (scanOrder fieldWidth fieldHeight)
      in if \<not> failed a \<and> isComplete fieldWidth fieldHeight (used a)
         then (Some (pieces a), rseed a)
         else tryGenerate arraySort fieldWidth fieldHeight attemptsLeft (rseed a))"

text \<open>
  \<open>generateFallbackLayout\<close>. \<open>fallbackRow\<close> is the \<open>while\<close> loop over the columns of
  one row (horizontal I pieces on runs of four free cells, else O pieces on two free
  cells with two free cells above), \<open>fallbackCol\<close> the \<open>while\<close> loop down one column
  (vertical I pieces on runs of four free cells). The generator handed to the function
  is not used by it.
\<close>

function fallbackRow ::
  "nat \<Rightarrow> bool list list \<times> LayoutPiece list \<Rightarrow> int \<Rightarrow> nat \<Rightarrow> bool list list \<times> LayoutPiece list" where
  "fallbackRow fieldWidth up row col =
     (let (u, ps) = up
      in if \<not> col < fieldWidth then (u, ps)
         else if usedAt u row (int col) then fallbackRow fieldWidth (u, ps) row (col + 1)
         else
           let freeCount = length (takeWhile (\<lambda>c. \<not> usedAt u row (int c)) [col..<fieldWidth])
           in if freeCount \<ge> 4 then
                let cs = [(row, int col), (row, int col + 1), (row, int col + 2), (row, int col + 3)]
                in fallbackRow fieldWidth
                     (markCells u cs, ps @ [\<lparr>ptype = I_piece, layoutRotation = 0, cells = cs\<rparr>])
                     row (col + 4)
              else if freeCount \<ge> 2 \<and> row \<ge> 1 \<and> \<not> usedAt u (row - 1) (int col)
                      \<and> \<not> usedAt u (row - 1) (int col + 1) then
                let cs = [(row - 1, int col), (row - 1, int col + 1), (row, int col), (row, int col + 1)]
                in fallbackRow fieldWidth
                     (markCells u cs, ps @ [\<lparr>ptype = O_piece, layoutRotation = 0, cells = cs\<rparr>])
                     row (col + 2)
              else fallbackRow fieldWidth (u, ps) row (col + 1))"
  by pat_completeness auto
termination
  by (relation "measure (\<lambda>(fieldWidth, up, row, col). fieldWidth - col)") auto

function fallbackCol ::
  "bool list list \<times> LayoutPiece list \<Rightarrow> int \<Rightarrow> int \<Rightarrow> bool list list \<times> LayoutPiece list" where
  "fallbackCol up col row =
     (let (u, ps) = up
      in if \<not> row \<ge> 0 then (u, ps)
         else if usedAt u row col then fallbackCol (u, ps) col (row - 1)
         else
           let freeCount = length (takeWhile (\<lambda>r. \<not> usedAt u (int r) col) (rev [0..<nat row + 1]))
           in if freeCount \<ge> 4 then
                let cs = [(row, col), (row - 1, col), (row - 2, col), (row - 3, col)]
                in fallbackCol
                     (markCells u cs, ps @ [\<lparr>ptype = I_piece, layoutRotation = 1, cells = cs\<rparr>])
                     col (row - 4)
              else fallbackCol (u, ps) col (row - 1))"
  by pat_completeness auto
termination
  by (relation "measure (\<lambda>(up, col, row). nat (row + 1))") auto

declare fallbackRow.simps [simp del] fallbackCol.simps [simp del]

definition generateFallbackLayout :: "nat \<Rightarrow> nat \<Rightarrow> LayoutPiece list" where
  "generateFallbackLayout fieldWidth fieldHeight =
     (let up1 = foldl (\<lambda>up row. fallbackRow fieldWidth up (int row) 0)
                  (emptyField fieldWidth fieldHeight, []) (rev [0..<fieldHeight]);
          up2 = foldl (\<lambda>up col. fallbackCol up (int col) (int fieldHeight - 1))
                  up1 [0..<fieldWidth]
      in snd up2)"

text \<open>
  The state of the host outside a call: the lines written to the console, the number
  of values drawn so far from the global generator \<open>Math.random\<close>, and the clock.
\<close>

record environment =
  console :: "string list"
  mathRandomCalls :: nat
  clock :: int

text \<open>
  \<open>generatePieceLayout\<close>. The generator is created from the seed inside the call. The
  call writes a warning to the console when it falls back and touches nothing else
  outside; the environment is passed in and returned.
\<close>

definition generatePieceLayout ::
  "sortProcedure \<Rightarrow> nat \<Rightarrow> nat \<Rightarrow> int \<Rightarrow> environment \<Rightarrow> LayoutPiece list \<times> environment" where
  "generatePieceLayout arraySort fieldWidth fieldHeight seed env =
     (case tryGenerate arraySort fieldWidth fieldHeight 50 seed of
        (Some result, seed') \<Rightarrow> (result, env)
      | (None, seed') \<Rightarrow>
          (generateFallbackLayout fieldWidth fieldHeight,
           env\<lparr>console := console env @ [''Using fallback layout'']\<rparr>))"

text \<open>The field dimensions the game uses.\<close>

definition FIELD_WIDTH :: nat where "FIELD_WIDTH = 10"
definition FIELD_HEIGHT :: nat where "FIELD_HEIGHT = 16"

section \<open>Auxiliary definitions for the proofs\<close>

text \<open>The invariant behind the conservation of rings: the state and every snapshot
  in the history hold the same multiset of rings.\<close>

definition poolInv :: "Ring multiset \<Rightarrow> SortingGameLogic \<Rightarrow> bool" where
  "poolInv P g \<longleftrightarrow> mset (concat (state g)) = P \<and> (\<forall>s \<in> set (history g). mset (concat s) = P)"

text \<open>Concrete objects on which the theorems are instantiated.\<close>

definition exampleGame :: SortingGameLogic where
  "exampleGame =
     \<lparr>state = [[\<lparr>ring_id = ''ring-0'', color = ''#f44336''\<rparr>,
                \<lparr>ring_id = ''ring-1'', color = ''#ff9800''\<rparr>,
                \<lparr>ring_id = ''ring-2'', color = ''#ff9800''\<rparr>],
               [],
               [\<lparr>ring_id = ''ring-3'', color = ''#ff9800''\<rparr>]],
      history = [], config = DIFFICULTY_LEVELS Easy,
      gcolors = take 5 ALL_COLORS, nextRingId = 4, randomCalls = 0\<rparr>"

definition fullHistoryGame :: SortingGameLogic where
  "fullHistoryGame = exampleGame\<lparr>history := replicate 200 (state exampleGame)\<rparr>"

definition exampleTiles :: "Tile list" where
  "exampleTiles =
     [\<lparr>tile_id = ''tile-0'', tile_color = ''#000000'', correctIndex = 0, isAnchor = False\<rparr>,
      \<lparr>tile_id = ''tile-1'', tile_color = ''#ffffff'', correctIndex = 1, isAnchor = False\<rparr>]"

definition anchoredTiles :: "Tile list" where
  "anchoredTiles =
     [\<lparr>tile_id = ''tile-0'', tile_color = ''#000000'', correctIndex = 0, isAnchor = True\<rparr>,
      \<lparr>tile_id = ''tile-1'', tile_color = ''#ffffff'', correctIndex = 1, isAnchor = False\<rparr>]"

definition tutorial1 :: LevelConfig where
  "tutorial1 =
     \<lparr>level_id = ''tutorial-1'', cols = 3, rows = 3,
      corner_colors = \<lparr>topLeft = ''#cc952e'', topRight = ''#db4734'',
                       bottomLeft = ''#f1660f'', bottomRight = ''#e74c3c''\<rparr>,
      anchors = [0, 2, 4, 6, 8]\<rparr>"

text \<open>
  Notions for the layout proofs: cells inside the field, well-formed grids, the cells
  covered by a list of pieces, groundedness of a piece on a set of cells and of a
  sequence of pieces on its predecessors, the invariant of an attempt, and the
  property of the host's sort procedure that the layout relies on: it returns a
  rearrangement of the array.
\<close>

definition inField :: "nat \<Rightarrow> nat \<Rightarrow> int \<times> int \<Rightarrow> bool" where
  "inField fieldWidth fieldHeight rc =
     (fst rc \<ge> 0 \<and> fst rc < int fieldHeight \<and> snd rc \<ge> 0 \<and> snd rc < int fieldWidth)"

definition wfUsed :: "nat \<Rightarrow> nat \<Rightarrow> bool list list \<Rightarrow> bool" where
  "wfUsed fieldWidth fieldHeight u \<longleftrightarrow>
     length u = fieldHeight \<and> (\<forall>row \<in> set u. length row = fieldWidth)"

definition covered :: "LayoutPiece list \<Rightarrow> (int \<times> int) set" where
  "covered ps = set (concat (map cells ps))"

definition groundedOn :: "nat \<Rightarrow> (int \<times> int) list \<Rightarrow> (int \<times> int) set \<Rightarrow> bool" where
  "groundedOn fieldHeight cs below \<longleftrightarrow>
     (\<forall>(r, c) \<in> set cs.
        (\<forall>(r', c') \<in> set cs. c' = c \<longrightarrow> r' \<le> r) \<longrightarrow>
        r = int fieldHeight - 1 \<or> (r + 1, c) \<in> below)"

definition groundedSeq :: "nat \<Rightarrow> LayoutPiece list \<Rightarrow> bool" where
  "groundedSeq fieldHeight ps \<longleftrightarrow>
     (\<forall>i < length ps. groundedOn fieldHeight (cells (ps ! i)) (covered (take i ps)))"

definition layoutInv :: "nat \<Rightarrow> nat \<Rightarrow> attempt \<Rightarrow> bool" where
  "layoutInv fieldWidth fieldHeight a \<longleftrightarrow>
     wfUsed fieldWidth fieldHeight (used a) \<and>
     (\<forall>rc. inField fieldWidth fieldHeight rc \<longrightarrow>
           (usedAt (used a) (fst rc) (snd rc) \<longleftrightarrow> rc \<in> covered (pieces a))) \<and>
     (\<forall>rc \<in> covered (pieces a). inField fieldWidth fieldHeight rc) \<and>
     distinct (concat (map cells (pieces a))) \<and>
     groundedSeq fieldHeight (pieces a)"

definition sortArranges :: "sortProcedure \<Rightarrow> bool" where
  "sortArranges arraySort \<longleftrightarrow> (\<forall>n cmp. mset (fst (arraySort n cmp)) = mset [0..<n])"

definition validCells :: "nat \<Rightarrow> nat \<Rightarrow> bool list list \<Rightarrow> (int \<times> int) list \<Rightarrow> bool" where
  "validCells w h u cs \<longleftrightarrow> (\<forall>rc \<in> set cs. inField w h rc \<and> \<not> usedAt u (fst rc) (snd rc))"

definition isLayout :: "nat \<Rightarrow> nat \<Rightarrow> LayoutPiece list \<Rightarrow> bool" where
  "isLayout w h ps \<longleftrightarrow>
     distinct (concat (map cells ps)) \<and>
     covered ps = {rc. inField w h rc} \<and>
     groundedSeq h ps"

text \<open>An executable check of a layout, run on the fallback tiling.\<close>

fun groundedFrom :: "nat \<Rightarrow> (int \<times> int) list \<Rightarrow> LayoutPiece list \<Rightarrow> bool" where
  "groundedFrom h below [] = True"
| "groundedFrom h below (p # ps) =
     (groundedOn h (cells p) (set below) \<and> groundedFrom h (below @ cells p) ps)"

definition fallbackCheck :: "nat \<Rightarrow> nat \<Rightarrow> bool" where
  "fallbackCheck w h =
     (let ps = generateFallbackLayout w h; cs = concat (map cells ps)
      in distinct cs \<and> (\<forall>rc \<in> set cs. inField w h rc) \<and> length cs = w * h \<and>
         groundedFrom h [] ps)"

definition exampleSort :: sortProcedure where
  "exampleSort n cmp = ([0..<n], n - 1)"

definition exampleEnv :: environment where
  "exampleEnv = \<lparr>console = [], mathRandomCalls = 0, clock = 0\<rparr>"

section \<open>Properties of the Tower-Sort engine\<close>

lemma countBelow_takeWhile:
  "countBelow c rs = length (takeWhile (\<lambda>r. color r = c) rs)"
  by (induction rs) auto

lemma getTopBlockSize_takeWhile:
  "getTopBlockSize peg = length (takeWhile (\<lambda>r. color r = color (last peg)) (rev peg))"
proof (cases peg rule: rev_cases)
  case Nil
  then show ?thesis by (simp add: getTopBlockSize_def)
next
  case (snoc below top)
  then show ?thesis by (simp add: getTopBlockSize_def countBelow_takeWhile)
qed

lemma getTopBlockSize_le: "getTopBlockSize peg \<le> length peg"
  unfolding getTopBlockSize_takeWhile
  by (metis length_rev length_takeWhile_le)

text \<open>
  C1. For in-range peg indices, \<open>canMove\<close> is false on an empty source peg; on a
  non-empty one, with the block size the number of consecutive rings of the top
  colour at the top of the source, it is true exactly when the target is empty or
  shows the same top colour, and the free room of the target,
  \<open>maxHeight - target.length\<close>, is at least the block size.
\<close>

theorem canMove_spec:
  assumes "from < length (state g)" and "to < length (state g)" and "from \<noteq> to"
  shows "canMove g (int from) (int to) =
           Inr (state g ! from \<noteq> [] \<and>
                (state g ! to = [] \<or>
                 color (last (state g ! to)) = color (last (state g ! from))) \<and>
                int (height (config g)) - int (length (state g ! to))
                  \<ge> int (length (takeWhile (\<lambda>r. color r = color (last (state g ! from)))
                                       (rev (state g ! from)))))"
  using assms
  by (auto simp: canMove_def pegAt_def Let_def getTopBlockSize_takeWhile)

theorem canMove_spec_witness:
  "(0::nat) < length (state exampleGame) \<and> (2::nat) < length (state exampleGame) \<and>
   canMove exampleGame (int 0) (int 2) = Inr True"
  using canMove_spec [of 0 exampleGame 2] by (simp add: exampleGame_def)

lemma copy_id: "map (\<lambda>peg. map (\<lambda>r. \<lparr>ring_id = ring_id r, color = color r\<rparr>) peg) st = st"
  by (induction st) (auto simp: map_idI)

lemma history_pushHistory:
  "history (pushHistory g) =
     (if length (history g) \<ge> maxHistorySize then tl (history g @ [state g]) else history g @ [state g])"
  by (simp add: pushHistory_def Let_def copy_id)

lemma state_pushHistory: "state (pushHistory g) = state g"
  by (simp add: pushHistory_def Let_def)

lemma last_history_pushHistory: "last (history (pushHistory g)) = state g"
  by (cases "history g") (auto simp: history_pushHistory maxHistorySize_def)

lemma history_pushHistory_nonempty: "history (pushHistory g) \<noteq> []"
  by (cases "history g") (auto simp: history_pushHistory maxHistorySize_def)

lemma canMove_True_range:
  assumes "canMove g from to = Inr True"
  shows "0 \<le> from \<and> from < int (length (state g)) \<and> 0 \<le> to \<and> to < int (length (state g))"
  using assms
  by (auto simp: canMove_def pegAt_def Let_def split: option.splits if_splits)

lemma move_legal:
  assumes "canMove g from to = Inr True"
  shows "\<exists>res. res \<noteq> Invalid \<and> move g from to =
           Inr (res, (pushHistory g)\<lparr>state :=
              (let source = state g ! nat from;
                   blockSize = getTopBlockSize source;
                   st1 = (state g)[nat from := take (length source - blockSize) source]
               in st1[nat to := st1 ! nat to @ drop (length source - blockSize) source])\<rparr>)"
  using assms by (simp add: move_def Let_def state_pushHistory)

text \<open>
  C2. When the move is illegal, that is when \<open>canMove\<close> returns false, \<open>move\<close>
  returns \<open>invalid\<close> and the object (pegs and history) is exactly as before.
\<close>

theorem move_invalid_unchanged:
  assumes "canMove g from to = Inr False"
  shows "move g from to = Inr (Invalid, g)"
  using assms by (simp add: move_def)

theorem move_invalid_unchanged_witness:
  "canMove exampleGame 1 0 = Inr False \<and> move exampleGame 1 0 = Inr (Invalid, exampleGame)"
proof -
  have h: "canMove exampleGame 1 0 = Inr False"
    by (simp add: canMove_def pegAt_def exampleGame_def)
  from move_invalid_unchanged [OF h] h show ?thesis by simp
qed

text \<open>
  C3. After a legal \<open>move\<close>, \<open>undo\<close> returns true and the pegs are exactly those
  before the move: the same rings, identities and colours, in the same order.
  This holds in every state, reachable or not.
\<close>

theorem move_undo_restores:
  assumes "canMove g from to = Inr True"
  shows "\<exists>res g'. move g from to = Inr (res, g') \<and>
                   fst (undo g') = True \<and> state (snd (undo g')) = state g"
proof -
  from move_legal [OF assms] obtain res g' where
    m: "move g from to = Inr (res, g')" and h: "history g' = history (pushHistory g)"
    by auto
  have "history g' \<noteq> []" "last (history g') = state g"
    using h by (simp_all add: history_pushHistory_nonempty last_history_pushHistory)
  then have "fst (undo g') = True \<and> state (snd (undo g')) = state g"
    by (simp add: undo_def)
  with m show ?thesis by blast
qed

lemma exampleGame_canMove: "canMove exampleGame 0 1 = Inr True"
  by (simp add: canMove_def pegAt_def exampleGame_def getTopBlockSize_def)

theorem move_undo_restores_witness:
  "canMove exampleGame 0 1 = Inr True \<and>
   (\<exists>res g'. move exampleGame 0 1 = Inr (res, g') \<and>
              fst (undo g') = True \<and> state (snd (undo g')) = state exampleGame)"
  using move_undo_restores [OF exampleGame_canMove] exampleGame_canMove by blast

lemma history_pushHistory_le: "length (history g) \<le> maxHistorySize \<Longrightarrow> length (history (pushHistory g)) \<le> maxHistorySize"
  by (simp add: history_pushHistory)

lemma move_cases:
  "move g from to = Inl TypeError \<or> move g from to = Inr (Invalid, g) \<or>
   (canMove g from to = Inr True \<and>
    (\<exists>res g'. move g from to = Inr (res, g') \<and> history g' = history (pushHistory g)))"
proof (cases "canMove g from to")
  case (Inl e)
  then show ?thesis by (cases e) (simp add: move_def)
next
  case (Inr b)
  show ?thesis
  proof (cases b)
    case True
    with Inr move_legal [of g "from" to] show ?thesis by auto
  next
    case False
    with Inr show ?thesis by (simp add: move_def)
  qed
qed

lemma history_reset: "history (reset random g) = []"
  by (simp add: reset_def createInitialState_def Let_def split: prod.splits)

lemma perform_history_le:
  assumes "length (history g) \<le> maxHistorySize"
  shows "length (history (perform random g c)) \<le> maxHistorySize"
proof (cases c)
  case (Move "from" to)
  from move_cases [of g "from" to] show ?thesis
  proof (elim disjE conjE exE)
    assume "move g from to = Inl TypeError"
    with Move assms show ?thesis by simp
  next
    assume "move g from to = Inr (Invalid, g)"
    with Move assms show ?thesis by simp
  next
    fix res g'
    assume "move g from to = Inr (res, g')" "history g' = history (pushHistory g)"
    with Move history_pushHistory_le [OF assms] show ?thesis by simp
  qed
next
  case Undo
  with assms show ?thesis by (auto simp: undo_def)
next
  case Reset
  then show ?thesis by (simp add: history_reset)
qed (use assms in simp_all)

lemma performAll_history_le:
  "length (history g) \<le> maxHistorySize \<Longrightarrow>
   length (history (performAll random g calls)) \<le> maxHistorySize"
  unfolding performAll_def
  by (induction calls arbitrary: g) (simp_all add: perform_history_le)

lemma history_new: "history (newSortingGameLogic d random) = []"
  by (simp add: newSortingGameLogic_def history_reset)

text \<open>
  C4. In every state reached from construction by \<open>move\<close>, \<open>undo\<close> and \<open>reset\<close>
  calls the history holds at most 200 snapshots; and a legal move made with 200
  snapshots in the history drops the oldest one and appends the state before the
  move, so that the history still holds 200.
\<close>

theorem history_bounded:
  "length (history (performAll random (newSortingGameLogic d random) calls)) \<le> 200 \<and>
   (length (history g) = 200 \<and> canMove g from to = Inr True \<longrightarrow>
      (\<exists>res g'. move g from to = Inr (res, g') \<and>
                 history g' = tl (history g) @ [state g] \<and>
                 length (history g') = 200))"
proof
  have "length (history (newSortingGameLogic d random)) \<le> maxHistorySize"
    by (simp add: history_new)
  from performAll_history_le [OF this]
  show "length (history (performAll random (newSortingGameLogic d random) calls)) \<le> 200"
    by (simp add: maxHistorySize_def)
next
  show "length (history g) = 200 \<and> canMove g from to = Inr True \<longrightarrow>
      (\<exists>res g'. move g from to = Inr (res, g') \<and>
                 history g' = tl (history g) @ [state g] \<and>
                 length (history g') = 200)"
  proof
    assume a: "length (history g) = 200 \<and> canMove g from to = Inr True"
    then have ne: "history g \<noteq> []" by auto
    from a move_legal [of g "from" to] obtain res g' where
      m: "move g from to = Inr (res, g')" and h: "history g' = history (pushHistory g)"
      by auto
    from a ne have "history (pushHistory g) = tl (history g) @ [state g]"
      by (simp add: history_pushHistory maxHistorySize_def)
    with a h m ne show "\<exists>res g'. move g from to = Inr (res, g') \<and>
                 history g' = tl (history g) @ [state g] \<and>
                 length (history g') = 200"
      by auto
  qed
qed

lemma fullHistoryGame_canMove: "canMove fullHistoryGame 0 1 = Inr True"
  by (simp add: canMove_def pegAt_def fullHistoryGame_def exampleGame_def getTopBlockSize_def)

theorem history_bounded_witness:
  "length (history (performAll (\<lambda>k. 0) (newSortingGameLogic Easy (\<lambda>k. 0)) [])) \<le> 200 \<and>
   length (history fullHistoryGame) = 200 \<and> canMove fullHistoryGame 0 1 = Inr True \<and>
   (\<exists>res g'. move fullHistoryGame 0 1 = Inr (res, g') \<and>
              history g' = tl (history fullHistoryGame) @ [state fullHistoryGame] \<and>
              length (history g') = 200)"
proof -
  have l: "length (history fullHistoryGame) = 200"
    by (simp add: fullHistoryGame_def)
  from history_bounded [of "\<lambda>k. 0" Easy "[]" fullHistoryGame 0 1] l fullHistoryGame_canMove
  show ?thesis by blast
qed

lemma mset_concat_update:
  "i < length xs \<Longrightarrow>
   mset (concat (xs[i := y])) + mset (xs ! i) = mset (concat xs) + mset y"
proof (induction xs arbitrary: i)
  case Nil
  then show ?case by simp
next
  case (Cons x xs)
  show ?case
  proof (cases i)
    case 0
    then show ?thesis by simp
  next
    case (Suc k)
    with Cons.prems have "k < length xs" by simp
    from Cons.IH [OF this] Suc show ?thesis by (simp add: add.assoc)
  qed
qed

lemma mset_move_state:
  assumes f: "f < length st" and t: "t < length st" and n: "n \<le> length (st ! f)"
  shows "mset (concat ((st[f := take n (st ! f)])[t := (st[f := take n (st ! f)]) ! t @ drop n (st ! f)]))
         = mset (concat st)"
proof -
  let ?st1 = "st[f := take n (st ! f)]"
  have 1: "mset (concat ?st1) + mset (st ! f) = mset (concat st) + mset (take n (st ! f))"
    using f by (rule mset_concat_update)
  have t1: "t < length ?st1" using t by simp
  have 2: "mset (concat (?st1[t := ?st1 ! t @ drop n (st ! f)])) + mset (?st1 ! t)
           = mset (concat ?st1) + mset (?st1 ! t @ drop n (st ! f))"
    using t1 by (rule mset_concat_update)
  then have 3: "mset (concat (?st1[t := ?st1 ! t @ drop n (st ! f)]))
           = mset (concat ?st1) + mset (drop n (st ! f))"
    by simp
  have "mset (st ! f) = mset (take n (st ! f)) + mset (drop n (st ! f))"
    unfolding mset_append [symmetric] by simp
  with 1 have "(mset (concat ?st1) + mset (drop n (st ! f))) + mset (take n (st ! f))
                = mset (concat st) + mset (take n (st ! f))"
    by (simp only: union_ac)
  then have "mset (concat ?st1) + mset (drop n (st ! f)) = mset (concat st)"
    by (simp only: add_right_cancel)
  with 3 show ?thesis by simp
qed

lemma poolInv_pushHistory:
  assumes "poolInv P g"
  shows "\<forall>s \<in> set (history (pushHistory g)). mset (concat s) = P"
proof -
  have "set (history (pushHistory g)) \<subseteq> set (history g) \<union> {state g}"
    by (cases "history g") (auto simp: history_pushHistory)
  with assms show ?thesis by (auto simp: poolInv_def)
qed

lemma poolInv_move:
  assumes inv: "poolInv P g" and m: "move g from to = Inr (res, g')"
  shows "poolInv P g'"
proof (cases "canMove g from to = Inr True")
  case True
  from canMove_True_range [OF True] have
    r: "nat from < length (state g)" "nat to < length (state g)" by auto
  from move_legal [OF True] m have
    g': "g' = (pushHistory g)\<lparr>state :=
              (let source = state g ! nat from;
                   blockSize = getTopBlockSize source;
                   st1 = (state g)[nat from := take (length source - blockSize) source]
               in st1[nat to := st1 ! nat to @ drop (length source - blockSize) source])\<rparr>"
    by auto
  have "mset (concat (state g')) = mset (concat (state g))"
    unfolding g' using r by (simp add: Let_def mset_move_state)
  moreover have "history g' = history (pushHistory g)" unfolding g' by simp
  ultimately show ?thesis using inv poolInv_pushHistory [OF inv] by (simp add: poolInv_def)
next
  case False
  with move_cases [of g "from" to] m have "g' = g" by auto
  with inv show ?thesis by simp
qed

lemma poolInv_undo: "poolInv P g \<Longrightarrow> poolInv P (snd (undo g))"
  by (cases "history g" rule: rev_cases) (auto simp: undo_def poolInv_def)

lemma poolInv_perform:
  assumes "poolInv P g" and "c \<noteq> Reset"
  shows "poolInv P (perform random g c)"
proof (cases c)
  case (Move "from" to)
  show ?thesis
  proof (cases "move g from to")
    case (Inl e)
    with Move assms show ?thesis by simp
  next
    case (Inr p)
    obtain res g' where "p = (res, g')" by (cases p)
    with Inr Move poolInv_move [OF assms(1), of "from" to res g'] show ?thesis by simp
  qed
next
  case Undo
  with assms show ?thesis by (simp add: poolInv_undo)
qed (use assms in simp_all)

lemma poolInv_performAll:
  "poolInv P g \<Longrightarrow> Reset \<notin> set calls \<Longrightarrow> poolInv P (performAll random g calls)"
  unfolding performAll_def
  by (induction calls arbitrary: g) (auto simp: poolInv_perform)

lemma mset_swapAt:
  "i < length xs \<Longrightarrow> j < length xs \<Longrightarrow> mset (swapAt xs i j) = mset xs"
  unfolding swapAt_def Let_def by (rule mset_swap)

lemma length_swapAt: "length (swapAt xs i j) = length xs"
  by (simp add: swapAt_def Let_def)

lemma floor_index_le:
  fixes r :: rat
  assumes "0 \<le> r" and "r < 1"
  shows "nat \<lfloor>r * of_nat (Suc i)\<rfloor> \<le> i"
proof -
  have "r * of_nat (Suc i) < of_nat (Suc i)"
    using assms by (simp add: mult_less_cancel_right2 del: of_nat_Suc)
  then have "\<lfloor>r * of_nat (Suc i)\<rfloor> < int (Suc i)"
    by (simp add: floor_less_iff del: of_nat_Suc)
  then show ?thesis by simp
qed

lemma mset_shuffleLoop:
  assumes "\<forall>k. 0 \<le> random k \<and> random k < 1" and "i < length xs"
  shows "mset (fst (shuffleLoop random k i xs)) = mset xs"
  using assms(2)
proof (induction i arbitrary: k xs)
  case 0
  then show ?case by simp
next
  case (Suc i')
  let ?j = "nat \<lfloor>random k * of_nat (Suc i' + 1)\<rfloor>"
  have "?j \<le> Suc i'"
    using floor_index_le [of "random k" "Suc i'"] assms(1) by simp
  with Suc.prems have j: "?j < length xs" by simp
  have "i' < length (swapAt xs (Suc i') ?j)"
    using Suc.prems by (simp add: length_swapAt)
  from Suc.IH [OF this] mset_swapAt [OF Suc.prems j]
  show ?case by (simp add: Let_def)
qed

lemma mset_shuffleArray:
  assumes "\<forall>k. 0 \<le> random k \<and> random k < 1"
  shows "mset (fst (shuffleArray random k xs)) = mset xs"
proof (cases xs)
  case Nil
  then show ?thesis by (simp add: shuffleArray_def)
next
  case (Cons x rest)
  then have "length xs - 1 < length xs" by simp
  from mset_shuffleLoop [OF assms this] show ?thesis by (simp add: shuffleArray_def)
qed

lemma concat_dealPegs:
  "concat (dealPegs n h p todo xs) = take (h * min todo (n - 2 - p)) xs"
proof (induction todo arbitrary: p xs)
  case 0
  then show ?case by simp
next
  case (Suc todo)
  show ?case
  proof (cases "p + 2 \<ge> n")
    case True
    then show ?thesis by (simp add: Suc.IH)
  next
    case False
    then obtain m where m: "n - Suc (Suc p) = Suc m" by (cases "n - Suc (Suc p)") auto
    then have m': "n - Suc (Suc (Suc p)) = m" by simp
    have "take h xs @ take (h * min todo m) (drop h xs) = take (h + h * min todo m) xs"
      by (simp add: take_add)
    with False show ?thesis by (simp add: Suc.IH m m')
  qed
qed

lemma length_mset_eq: "mset xs = mset ys \<Longrightarrow> length xs = length ys"
  by (metis size_mset)

lemma mset_createInitialState:
  assumes "\<forall>k. 0 \<le> random k \<and> random k < 1"
  shows "mset (concat (fst (createInitialState random g))) = mset (ringsPool g)"
proof -
  obtain shuffled k where sh: "shuffleArray random (randomCalls g) (ringsPool g) = (shuffled, k)"
    by (cases "shuffleArray random (randomCalls g) (ringsPool g)")
  from mset_shuffleArray [OF assms, of "randomCalls g" "ringsPool g"] sh
  have ms: "mset shuffled = mset (ringsPool g)" by simp
  then have "length shuffled = length (ringsPool g)" by (rule length_mset_eq)
  then have len: "length shuffled = (pegs (config g) - 2) * height (config g)"
    by (simp add: ringsPool_def)
  have "fst (createInitialState random g) =
          dealPegs (pegs (config g)) (height (config g)) 0 (pegs (config g)) shuffled"
    by (simp add: createInitialState_def Let_def sh)
  then have "concat (fst (createInitialState random g)) = shuffled"
    using len by (simp add: concat_dealPegs mult.commute)
  with ms show ?thesis by simp
qed

lemma poolInv_new:
  assumes "\<forall>k. 0 \<le> random k \<and> random k < 1"
  shows "poolInv (mset (ringsPool \<lparr>state = [], history = [], config = DIFFICULTY_LEVELS d,
        gcolors = take (colors (DIFFICULTY_LEVELS d)) ALL_COLORS,
        nextRingId = 0, randomCalls = 0\<rparr>)) (newSortingGameLogic d random)"
proof -
  let ?g0 = "\<lparr>state = [], history = [], config = DIFFICULTY_LEVELS d,
        gcolors = take (colors (DIFFICULTY_LEVELS d)) ALL_COLORS,
        nextRingId = 0, randomCalls = 0\<rparr>"
  obtain st g1 where c: "createInitialState random ?g0 = (st, g1)"
    by (cases "createInitialState random ?g0")
  with mset_createInitialState [OF assms, of ?g0] have "mset (concat st) = mset (ringsPool ?g0)"
    by simp
  then show ?thesis
    by (simp add: poolInv_def newSortingGameLogic_def reset_def c)
qed

text \<open>
  C10. In every state reached from construction by \<open>move\<close>, \<open>undo\<close>, \<open>getHint\<close>
  and \<open>checkWin\<close> calls, the rings on the pegs, counted with identity and colour,
  are exactly the initial pool: \<open>(pegs - 2) * height\<close> rings, the \<open>i\<close>-th with
  identity \<open>ring-i\<close> and the colour at position \<open>i mod colours\<close> of the palette.
  The injected generator returns values in the interval from 0 (included) to 1
  (excluded).
\<close>

theorem ring_pool_preserved:
  assumes "\<forall>k. 0 \<le> random k \<and> random k < 1" and "Reset \<notin> set calls"
  shows "mset (concat (state (performAll random (newSortingGameLogic d random) calls))) =
         mset (map (\<lambda>i. \<lparr>ring_id = ''ring-'' @ numberToString i,
                          color = take (colors (DIFFICULTY_LEVELS d)) ALL_COLORS
                                    ! (i mod colors (DIFFICULTY_LEVELS d))\<rparr>)
                   [0..<(pegs (DIFFICULTY_LEVELS d) - 2) * height (DIFFICULTY_LEVELS d)])"
proof -
  have len: "min (length ALL_COLORS) (colors (DIFFICULTY_LEVELS d)) = colors (DIFFICULTY_LEVELS d)"
    by (cases d) (simp_all add: ALL_COLORS_def)
  from poolInv_performAll [OF poolInv_new [OF assms(1)] assms(2)]
  show ?thesis
    by (simp add: poolInv_def ringsPool_def generateRingId_def len)
qed

theorem ring_pool_preserved_witness:
  "(\<forall>k::nat. (0::rat) \<le> 0 \<and> (0::rat) < 1) \<and> Reset \<notin> set [Move 0 5, Undo] \<and>
   mset (concat (state (performAll (\<lambda>k. 0) (newSortingGameLogic Easy (\<lambda>k. 0)) [Move 0 5, Undo]))) =
   mset (map (\<lambda>i. \<lparr>ring_id = ''ring-'' @ numberToString i,
                    color = take (colors (DIFFICULTY_LEVELS Easy)) ALL_COLORS
                              ! (i mod colors (DIFFICULTY_LEVELS Easy))\<rparr>)
             [0..<(pegs (DIFFICULTY_LEVELS Easy) - 2) * height (DIFFICULTY_LEVELS Easy)])"
  using ring_pool_preserved [of "\<lambda>k. 0" "[Move 0 5, Undo]" Easy] by simp

section \<open>Properties of the Tile-Gradient engine\<close>

lemma checkComplete_iff:
  "checkComplete tiles \<longleftrightarrow> (\<forall>i < length tiles. correctIndex (tiles ! i) = i)"
  by (auto simp: checkComplete_def list_all_length)

lemma length_shuffleTilesLoop:
  "length (shuffleTilesLoop random k na i result) = length result"
  by (induction i arbitrary: k result) (simp_all add: Let_def length_swapAt)

lemma swapAt_nth_first:
  "i < length xs \<Longrightarrow> i \<noteq> j \<Longrightarrow> swapAt xs i j ! i = xs ! j"
  by (simp add: swapAt_def Let_def)

lemma nonAnchor_count:
  "length (filter (\<lambda>i. \<not> isAnchor (tiles ! i)) [0..<length tiles]) =
   length (filter (\<lambda>t. \<not> isAnchor t) tiles)"
proof -
  have "filter (\<lambda>t. \<not> isAnchor t) tiles =
        filter (\<lambda>t. \<not> isAnchor t) (map ((!) tiles) [0..<length tiles])"
    by (simp add: map_nth)
  also have "\<dots> = map ((!) tiles) (filter (\<lambda>i. \<not> isAnchor (tiles ! i)) [0..<length tiles])"
    by (simp add: filter_map comp_def)
  finally show ?thesis by simp
qed

lemma shuffleTiles_not_complete:
  assumes "2 \<le> length (filter (\<lambda>t. \<not> isAnchor t) tiles)"
  shows "\<not> checkComplete (shuffleTiles random tiles)"
proof -
  let ?na = "filter (\<lambda>i. \<not> isAnchor (tiles ! i)) [0..<length tiles]"
  let ?res = "shuffleTilesLoop random 0 ?na (length ?na - 1) tiles"
  have len: "2 \<le> length ?na" using assms by (simp add: nonAnchor_count)
  have d: "distinct ?na" by simp
  have l0: "0 < length ?na" and l1: "1 < length ?na" using len by linarith+
  have "?na ! 0 \<in> set ?na" using l0 by (rule nth_mem)
  moreover have "?na ! 1 \<in> set ?na" using l1 by (rule nth_mem)
  ultimately
  have "?na ! 0 \<in> set [0..<length tiles]" "?na ! 1 \<in> set [0..<length tiles]"
    by (simp_all only: set_filter mem_Collect_eq)
  then have r: "?na ! 0 < length tiles" "?na ! 1 < length tiles" by simp_all
  have ne: "?na ! 0 \<noteq> ?na ! 1"
    using nth_eq_iff_index_eq [OF d l0 l1] by simp
  have lres: "length ?res = length tiles" by (rule length_shuffleTilesLoop)
  show ?thesis
  proof (cases "checkComplete ?res")
    case True
    then have "correctIndex (?res ! (?na ! 1)) = ?na ! 1"
      using r lres by (simp add: checkComplete_iff)
    moreover have "swapAt ?res (?na ! 0) (?na ! 1) ! (?na ! 0) = ?res ! (?na ! 1)"
      using r lres ne by (simp add: swapAt_nth_first)
    ultimately have "correctIndex (swapAt ?res (?na ! 0) (?na ! 1) ! (?na ! 0)) \<noteq> ?na ! 0"
      using ne by simp
    then have "\<not> checkComplete (swapAt ?res (?na ! 0) (?na ! 1))"
      using r lres by (auto simp: checkComplete_iff length_swapAt)
    moreover have "shuffleTiles random tiles = swapAt ?res (?na ! 0) (?na ! 1)"
      using True len by (simp add: shuffleTiles_def Let_def checkComplete_def)
    ultimately show ?thesis by simp
  next
    case False
    then have "shuffleTiles random tiles = ?res"
      by (simp add: shuffleTiles_def Let_def checkComplete_def)
    with False show ?thesis by simp
  qed
qed

text \<open>
  C8. For the tiles generated for a level with at least two non-anchor tiles, and for
  every sequence of values of the random number generator, the shuffled arrangement
  is not the solved one.
\<close>

theorem shuffleTiles_never_solved:
  assumes "2 \<le> length (filter (\<lambda>t. \<not> isAnchor t) (generateTiles bilinearInterpolate level))"
  shows "\<not> checkComplete (shuffleTiles random (generateTiles bilinearInterpolate level))"
  using assms by (rule shuffleTiles_not_complete)

lemma tutorial1_nonAnchors:
  "length (filter (\<lambda>t. \<not> isAnchor t) (generateTiles (\<lambda>c x y. topLeft c) tutorial1)) = 4"
  by (simp add: generateTiles_def tutorial1_def Let_def upt_rec [of _ "numeral n" for n])

theorem shuffleTiles_never_solved_witness:
  "2 \<le> length (filter (\<lambda>t. \<not> isAnchor t) (generateTiles (\<lambda>c x y. topLeft c) tutorial1)) \<and>
   \<not> checkComplete (shuffleTiles (\<lambda>k. 1 / 2) (generateTiles (\<lambda>c x y. topLeft c) tutorial1))"
  using shuffleTiles_never_solved [of "\<lambda>c x y. topLeft c" tutorial1 "\<lambda>k. 1 / 2"]
    tutorial1_nonAnchors by simp

lemma generateTiles_complete: "checkComplete (generateTiles b level)"
  by (simp add: checkComplete_iff generateTiles_def Let_def)

text \<open>
  C9, as stated, fails: \<open>swapTiles\<close> with a first index outside the array raises a
  TypeError instead of returning a sentinel.
\<close>

theorem swapTiles_throws_counterexample:
  "swapTiles exampleTiles 5 0 = Inl TypeError"
  by (simp add: swapTiles_def tileAt_def exampleTiles_def)

text \<open>
  C9, amended. \<open>canMove\<close> and \<open>move\<close> return a result, without raising, whenever the
  source peg is missing or empty (they return false and \<open>invalid\<close>, the object
  unchanged, whatever the target index) and whenever the target index is inside the
  state. \<open>swapTiles\<close> raises a TypeError exactly when \<open>indexA\<close> is outside the array,
  or the tile at \<open>indexA\<close> is not an anchor and \<open>indexB\<close> is outside the array; in
  every other case it returns a sentinel or a result: \<open>null\<close> when the tile at
  \<open>indexA\<close> is an anchor (whatever \<open>indexB\<close>) or the tile at \<open>indexB\<close> is one, and
  the array with the two tiles exchanged otherwise.
\<close>

theorem no_throw_in_range:
  "((\<not> (0 \<le> from \<and> from < int (length (state g))) \<or> state g ! nat from = []) \<longrightarrow>
      canMove g from to = Inr False \<and> move g from to = Inr (Invalid, g)) \<and>
   ((\<not> (0 \<le> from \<and> from < int (length (state g))) \<or> state g ! nat from = [] \<or>
     (0 \<le> to \<and> to < int (length (state g)))) \<longrightarrow>
      (\<exists>b. canMove g from to = Inr b) \<and> (\<exists>r. move g from to = Inr r)) \<and>
   swapTiles tiles a b =
     (if \<not> (0 \<le> a \<and> a < int (length tiles)) then Inl TypeError
      else if isAnchor (tiles ! nat a) then Inr None
      else if \<not> (0 \<le> b \<and> b < int (length tiles)) then Inl TypeError
      else if isAnchor (tiles ! nat b) then Inr None
      else Inr (Some (swapAt tiles (nat a) (nat b)))) \<and>
   (swapTiles tiles a b = Inl TypeError \<longleftrightarrow>
      \<not> (0 \<le> a \<and> a < int (length tiles)) \<or>
      (\<not> isAnchor (tiles ! nat a) \<and> \<not> (0 \<le> b \<and> b < int (length tiles))))"
proof -
  have src: "canMove g from to = Inr False \<and> move g from to = Inr (Invalid, g)"
    if "\<not> (0 \<le> from \<and> from < int (length (state g))) \<or> state g ! nat from = []"
  proof -
    from that have "canMove g from to = Inr False"
      by (auto simp: canMove_def pegAt_def Let_def)
    then show ?thesis by (simp add: move_def)
  qed
  have tgt: "(\<exists>b. canMove g from to = Inr b) \<and> (\<exists>r. move g from to = Inr r)"
    if "0 \<le> to \<and> to < int (length (state g))"
  proof -
    from that have "\<exists>b. canMove g from to = Inr b"
      by (auto simp: canMove_def pegAt_def Let_def split: option.splits)
    then obtain b where c: "canMove g from to = Inr b" ..
    then have "\<exists>r. move g from to = Inr r"
      using move_legal [of g "from" to] by (cases b) (auto simp: move_def)
    with c show ?thesis by blast
  qed
  have eq: "swapTiles tiles a b =
     (if \<not> (0 \<le> a \<and> a < int (length tiles)) then Inl TypeError
      else if isAnchor (tiles ! nat a) then Inr None
      else if \<not> (0 \<le> b \<and> b < int (length tiles)) then Inl TypeError
      else if isAnchor (tiles ! nat b) then Inr None
      else Inr (Some (swapAt tiles (nat a) (nat b))))"
    by (simp add: swapTiles_def tileAt_def)
  have thr: "swapTiles tiles a b = Inl TypeError \<longleftrightarrow>
      \<not> (0 \<le> a \<and> a < int (length tiles)) \<or>
      (\<not> isAnchor (tiles ! nat a) \<and> \<not> (0 \<le> b \<and> b < int (length tiles)))"
    unfolding eq by (simp split: if_splits)
  from src tgt eq thr show ?thesis by blast
qed

theorem no_throw_in_range_witness:
  "state exampleGame ! nat 1 = [] \<and>
   canMove exampleGame 1 99 = Inr False \<and>
   move exampleGame 1 99 = Inr (Invalid, exampleGame) \<and>
   \<not> ((0::int) \<le> - 1 \<and> (- 1::int) < int (length (state exampleGame))) \<and>
   canMove exampleGame (- 1) 99 = Inr False \<and>
   move exampleGame (- 1) 99 = Inr (Invalid, exampleGame) \<and>
   ((0::int) \<le> 1 \<and> (1::int) < int (length (state exampleGame))) \<and>
   (\<exists>b. canMove exampleGame 0 1 = Inr b) \<and> (\<exists>r. move exampleGame 0 1 = Inr r) \<and>
   swapTiles anchoredTiles 0 7 = Inr None \<and>
   swapTiles anchoredTiles 1 0 = Inr None \<and>
   swapTiles exampleTiles 0 1 = Inr (Some (swapAt exampleTiles 0 1)) \<and>
   swapTiles anchoredTiles 1 7 = Inl TypeError"
proof -
  have e: "state exampleGame ! nat 1 = []"
    and o: "\<not> ((0::int) \<le> - 1 \<and> (- 1::int) < int (length (state exampleGame)))"
    and t: "(0::int) \<le> 1 \<and> (1::int) < int (length (state exampleGame))"
    by (simp_all add: exampleGame_def)
  from no_throw_in_range [of 1 exampleGame 99 anchoredTiles 0 7] e
  have 1: "canMove exampleGame 1 99 = Inr False \<and>
           move exampleGame 1 99 = Inr (Invalid, exampleGame) \<and>
           swapTiles anchoredTiles 0 7 = Inr None"
    by (simp add: anchoredTiles_def)
  from no_throw_in_range [of "- 1" exampleGame 99 anchoredTiles 1 0] o
  have 2: "canMove exampleGame (- 1) 99 = Inr False \<and>
           move exampleGame (- 1) 99 = Inr (Invalid, exampleGame) \<and>
           swapTiles anchoredTiles 1 0 = Inr None"
    by (simp add: anchoredTiles_def)
  from no_throw_in_range [of 0 exampleGame 1 exampleTiles 0 1] t
  have 3: "(\<exists>b. canMove exampleGame 0 1 = Inr b) \<and> (\<exists>r. move exampleGame 0 1 = Inr r) \<and>
           swapTiles exampleTiles 0 1 = Inr (Some (swapAt exampleTiles 0 1))"
    by (simp add: exampleTiles_def)
  from no_throw_in_range [of 0 exampleGame 1 anchoredTiles 1 7]
  have 4: "swapTiles anchoredTiles 1 7 = Inl TypeError"
    by (simp add: anchoredTiles_def)
  from e o t 1 2 3 4 show ?thesis by blast
qed

text \<open>
  The missed case of \<open>canMove\<close>: a non-empty source peg with a target index outside
  the state raises a TypeError.
\<close>

lemma canMove_missing_target: "canMove exampleGame 0 100 = Inl TypeError"
  by (simp add: canMove_def pegAt_def exampleGame_def)

section \<open>Properties of the Falling-Piece layout engine\<close>

lemma wfUsed_setUsed:
  assumes "wfUsed w h u"
  shows "wfUsed w h (setUsed u r c)"
proof (cases "nat r < length u")
  case True
  then have "length (u ! nat r) = w" using assms by (simp add: wfUsed_def)
  moreover have "set (setUsed u r c) \<subseteq> insert ((u ! nat r)[nat c := True]) (set u)"
    unfolding setUsed_def by (rule set_update_subset_insert)
  ultimately show ?thesis using assms by (auto simp: wfUsed_def setUsed_def)
next
  case False
  then have "setUsed u r c = u" by (simp add: setUsed_def list_update_beyond)
  with assms show ?thesis by simp
qed

lemma usedAt_setUsed:
  assumes "wfUsed w h u" and "inField w h (r, c)" and "inField w h (r', c')"
  shows "usedAt (setUsed u r c) r' c' \<longleftrightarrow> (r', c') = (r, c) \<or> usedAt u r' c'"
proof -
  have r: "nat r < length u" "nat r' < length u"
    using assms by (auto simp: wfUsed_def inField_def)
  then have "u ! nat r \<in> set u" "u ! nat r' \<in> set u" by auto
  then have c: "nat c < length (u ! nat r)" "nat c' < length (u ! nat r')"
    using assms by (auto simp: wfUsed_def inField_def)
  have e: "nat r' = nat r \<longleftrightarrow> r' = r" "nat c' = nat c \<longleftrightarrow> c' = c"
    using assms by (auto simp: inField_def)
  show ?thesis
    using r c e by (auto simp: usedAt_def setUsed_def nth_list_update)
qed

lemma markCells_Cons: "markCells u ((r, c) # cs) = markCells (setUsed u r c) cs"
  by (simp add: markCells_def)

lemma wfUsed_markCells: "wfUsed w h u \<Longrightarrow> wfUsed w h (markCells u cs)"
proof (induction cs arbitrary: u)
  case Nil
  then show ?case by (simp add: markCells_def)
next
  case (Cons x cs)
  obtain r c where x: "x = (r, c)" by (cases x)
  from Cons show ?case by (simp add: x markCells_Cons wfUsed_setUsed)
qed

lemma usedAt_markCells:
  assumes "wfUsed w h u" and "\<forall>x \<in> set cs. inField w h x" and "inField w h (r', c')"
  shows "usedAt (markCells u cs) r' c' \<longleftrightarrow> (r', c') \<in> set cs \<or> usedAt u r' c'"
  using assms(1,2)
proof (induction cs arbitrary: u)
  case Nil
  then show ?case by (simp add: markCells_def)
next
  case (Cons x cs)
  obtain r c where x: "x = (r, c)" by (cases x)
  have wf: "wfUsed w h (setUsed u r c)" using Cons.prems(1) by (rule wfUsed_setUsed)
  have inx: "inField w h (r, c)" using Cons.prems(2) x by simp
  have "usedAt (markCells (setUsed u r c) cs) r' c' \<longleftrightarrow>
          (r', c') \<in> set cs \<or> usedAt (setUsed u r c) r' c'"
    using Cons.IH [OF wf] Cons.prems(2) by simp
  also have "usedAt (setUsed u r c) r' c' \<longleftrightarrow> (r', c') = (r, c) \<or> usedAt u r' c'"
    using Cons.prems(1) inx assms(3) by (rule usedAt_setUsed)
  finally show ?case by (auto simp: x markCells_Cons)
qed

lemma wfUsed_emptyField: "wfUsed w h (emptyField w h)"
  by (simp add: wfUsed_def emptyField_def)

lemma usedAt_emptyField:
  assumes "inField w h (r, c)"
  shows "\<not> usedAt (emptyField w h) r c"
proof -
  have "nat r < h" "nat c < w" using assms by (auto simp: inField_def)
  then show ?thesis by (simp add: usedAt_def emptyField_def)
qed

lemma columnBottoms_foldl: "columnBottoms cs = foldl bottomStep [] cs"
  by (simp add: columnBottoms_def)

lemma bottomStep_keeps:
  "map_of m c = Some b \<Longrightarrow> \<exists>b'. map_of (bottomStep m rc) c = Some b' \<and> b \<le> b'"
  by (cases rc) (auto simp: bottomStep_def update_conv' split: option.splits)

lemma bottomStep_adds:
  "\<exists>b. map_of (bottomStep m (row, col)) col = Some b \<and> row \<le> b"
  by (auto simp: bottomStep_def update_conv' split: option.splits)

lemma bottomStep_origin:
  "map_of (bottomStep m rc) c = Some b \<Longrightarrow> map_of m c = Some b \<or> rc = (b, c)"
  by (cases rc) (auto simp: bottomStep_def update_conv' split: option.splits if_splits)

lemma foldl_bottomStep_keeps:
  "map_of m c = Some b \<Longrightarrow> \<exists>b'. map_of (foldl bottomStep m cs) c = Some b' \<and> b \<le> b'"
proof (induction cs arbitrary: m b)
  case Nil
  then show ?case by simp
next
  case (Cons x cs)
  from bottomStep_keeps [OF Cons.prems, of x] obtain b1 where
    b1: "map_of (bottomStep m x) c = Some b1" "b \<le> b1" by blast
  from Cons.IH [OF b1(1)] obtain b' where
    "map_of (foldl bottomStep (bottomStep m x) cs) c = Some b'" "b1 \<le> b'" by blast
  with b1(2) show ?case by auto
qed

lemma foldl_bottomStep_adds:
  "(r, c) \<in> set cs \<Longrightarrow> \<exists>b. map_of (foldl bottomStep m cs) c = Some b \<and> r \<le> b"
proof (induction cs arbitrary: m)
  case Nil
  then show ?case by simp
next
  case (Cons x cs)
  show ?case
  proof (cases "x = (r, c)")
    case True
    from bottomStep_adds [of m r c] obtain b1 where
      b1: "map_of (bottomStep m (r, c)) c = Some b1" "r \<le> b1" by blast
    from foldl_bottomStep_keeps [OF b1(1), of cs] b1(2) True show ?thesis by auto
  next
    case False
    with Cons.prems have "(r, c) \<in> set cs" by simp
    from Cons.IH [OF this] show ?thesis by simp
  qed
qed

lemma foldl_bottomStep_origin:
  "map_of (foldl bottomStep m cs) c = Some b \<Longrightarrow> map_of m c = Some b \<or> (b, c) \<in> set cs"
proof (induction cs arbitrary: m)
  case Nil
  then show ?case by simp
next
  case (Cons x cs)
  from Cons.prems have "map_of (foldl bottomStep (bottomStep m x) cs) c = Some b" by simp
  from Cons.IH [OF this] bottomStep_origin [of m x c b] show ?case by auto
qed

lemma isPieceGrounded_bottom:
  assumes g: "isPieceGrounded cs u h" and m: "(r, c) \<in> set cs"
    and low: "\<forall>(r', c') \<in> set cs. c' = c \<longrightarrow> r' \<le> r"
  shows "r = int h - 1 \<or> usedAt u (r + 1) c"
proof -
  from foldl_bottomStep_adds [OF m, of "[]"] obtain b where
    b: "map_of (columnBottoms cs) c = Some b" "r \<le> b" by (auto simp: columnBottoms_foldl)
  from foldl_bottomStep_origin [of "[]" cs c b] b(1) have "(b, c) \<in> set cs"
    by (simp add: columnBottoms_foldl)
  with low have "b \<le> r" by auto
  with b(2) have "b = r" by simp
  with b(1) have "(c, r) \<in> set (columnBottoms cs)" by (auto dest: map_of_SomeD)
  with g show ?thesis by (auto simp: isPieceGrounded_def list_all_iff)
qed

lemma tryAnchors_Some:
  assumes "tryAnchors w h u row col shape todo = Some cs"
  shows "(\<exists>baseRow baseCol. cs = map (\<lambda>(dr, dc). (baseRow + dr, baseCol + dc)) shape) \<and>
         validCells w h u cs \<and> isPieceGrounded cs u h"
  using assms
proof (induction todo)
  case Nil
  then show ?case by simp
next
  case (Cons a todo)
  obtain anchorDr anchorDc where a: "a = (anchorDr, anchorDc)" by (cases a)
  let ?cs = "map (\<lambda>(dr, dc). (row - anchorDr + dr, col - anchorDc + dc)) shape"
  let ?valid = "list_all (\<lambda>(nr, nc). nr \<ge> 0 \<and> nr < int h \<and> nc \<ge> 0 \<and> nc < int w \<and>
                                    \<not> usedAt u nr nc) ?cs"
  show ?case
  proof (cases "?valid \<and> isPieceGrounded ?cs u h")
    case True
    with Cons.prems a have "cs = ?cs" by (simp add: Let_def)
    moreover from True have "validCells w h u ?cs"
      by (auto simp: validCells_def inField_def list_all_iff)
    ultimately show ?thesis using True by blast
  next
    case False
    with Cons.prems a have "tryAnchors w h u row col shape todo = Some cs"
      by (auto simp: Let_def split: if_splits)
    then show ?thesis by (rule Cons.IH)
  qed
qed

lemma tryRotations_Some:
  assumes "tryRotations w h u row col type rots = Some (rotIdx, cs)"
  shows "rotIdx \<in> set rots \<and>
         (\<exists>baseRow baseCol. cs = map (\<lambda>(dr, dc). (baseRow + dr, baseCol + dc))
                                      (TETROMINO_SHAPES type ! rotIdx)) \<and>
         validCells w h u cs \<and> isPieceGrounded cs u h"
  using assms
proof (induction rots)
  case Nil
  then show ?case by simp
next
  case (Cons r rots)
  show ?case
  proof (cases "tryAnchors w h u row col (TETROMINO_SHAPES type ! r) (TETROMINO_SHAPES type ! r)")
    case None
    with Cons.prems have "tryRotations w h u row col type rots = Some (rotIdx, cs)" by simp
    from Cons.IH [OF this] show ?thesis by simp
  next
    case (Some cs')
    with Cons.prems have "rotIdx = r" "cs' = cs" by simp_all
    with tryAnchors_Some [OF Some] show ?thesis by simp
  qed
qed

lemma sortRandom_subset:
  assumes "sortArranges arraySort"
  shows "set (fst (sortRandom arraySort xs seed)) \<subseteq> set xs"
proof -
  obtain arrangement calls where
    s: "arraySort (length xs) (comparatorResults seed) = (arrangement, calls)"
    by (cases "arraySort (length xs) (comparatorResults seed)")
  from assms have "mset (fst (arraySort (length xs) (comparatorResults seed))) = mset [0..<length xs]"
    unfolding sortArranges_def by blast
  with s have "mset arrangement = mset [0..<length xs]" by simp
  then have "set arrangement = set [0..<length xs]" by (rule mset_eq_setD)
  then have "\<forall>p \<in> set arrangement. p < length xs" by simp
  then show ?thesis by (auto simp: sortRandom_def s)
qed

lemma shapes_distinct: "rotIdx < 4 \<Longrightarrow> distinct (TETROMINO_SHAPES type ! rotIdx)"
proof -
  assume "rotIdx < 4"
  then consider "rotIdx = 0" | "rotIdx = 1" | "rotIdx = 2" | "rotIdx = 3" by linarith
  then show ?thesis by cases (cases type; simp)+
qed

lemma distinct_shift:
  "distinct shape \<Longrightarrow> distinct (map (\<lambda>(dr, dc). (baseRow + dr, baseCol + dc :: int)) (shape :: (int \<times> int) list))"
  by (auto simp: distinct_map intro!: inj_onI)

lemma tryTypes_Some:
  assumes srt: "sortArranges arraySort"
    and "tryTypes arraySort w h u row col types seed = (Some piece, seed')"
  shows "distinct (cells piece) \<and> validCells w h u (cells piece) \<and>
         isPieceGrounded (cells piece) u h"
  using assms(2)
proof (induction types arbitrary: seed)
  case Nil
  then show ?case by simp
next
  case (Cons type rest)
  obtain rots seed1 where s: "sortRandom arraySort [0, 1, 2, 3::nat] seed = (rots, seed1)"
    by (cases "sortRandom arraySort [0, 1, 2, 3::nat] seed")
  from sortRandom_subset [OF srt, of "[0, 1, 2, 3::nat]" seed] s
  have rots: "\<forall>r \<in> set rots. r < 4" by auto
  show ?case
  proof (cases "tryRotations w h u row col type rots")
    case None
    with Cons.prems s have "tryTypes arraySort w h u row col rest seed1 = (Some piece, seed')"
      by simp
    then show ?thesis by (rule Cons.IH)
  next
    case (Some found)
    obtain rotIdx cs where f: "found = (rotIdx, cs)" by (cases found)
    from Some f Cons.prems s have p: "cells piece = cs" by auto
    from tryRotations_Some [OF Some [unfolded f]] obtain baseRow baseCol where
      r: "rotIdx \<in> set rots"
      and c: "cs = map (\<lambda>(dr, dc). (baseRow + dr, baseCol + dc)) (TETROMINO_SHAPES type ! rotIdx)"
      and v: "validCells w h u cs" "isPieceGrounded cs u h"
      by blast
    from r rots have "rotIdx < 4" by simp
    then have "distinct cs" unfolding c by (intro distinct_shift shapes_distinct)
    with v p show ?thesis by simp
  qed
qed

lemma covered_snoc: "covered (ps @ [p]) = covered ps \<union> set (cells p)"
  by (simp add: covered_def)

lemma groundedSeq_snoc:
  assumes "groundedSeq h ps" and "groundedOn h (cells p) (covered ps)"
  shows "groundedSeq h (ps @ [p])"
  unfolding groundedSeq_def
proof (intro allI impI)
  fix i
  assume "i < length (ps @ [p])"
  then consider "i < length ps" | "i = length ps" by fastforce
  then show "groundedOn h (cells ((ps @ [p]) ! i)) (covered (take i (ps @ [p])))"
  proof cases
    case 1
    with assms(1) show ?thesis by (simp add: groundedSeq_def nth_append)
  next
    case 2
    with assms(2) show ?thesis by simp
  qed
qed

lemma layoutInv_place:
  assumes inv: "layoutInv w h a"
    and d: "distinct (cells piece)"
    and v: "validCells w h (used a) (cells piece)"
    and g: "isPieceGrounded (cells piece) (used a) h"
  shows "layoutInv w h (a\<lparr>used := markCells (used a) (cells piece),
                           pieces := pieces a @ [piece], rseed := s\<rparr>)"
proof -
  from inv have wf: "wfUsed w h (used a)"
    and cov: "\<And>rc. inField w h rc \<Longrightarrow> usedAt (used a) (fst rc) (snd rc) \<longleftrightarrow> rc \<in> covered (pieces a)"
    and inf: "\<And>rc. rc \<in> covered (pieces a) \<Longrightarrow> inField w h rc"
    and dis: "distinct (concat (map cells (pieces a)))"
    and gs: "groundedSeq h (pieces a)"
    by (auto simp: layoutInv_def)
  from v have vin: "\<forall>x \<in> set (cells piece). inField w h x" by (simp add: validCells_def)
  have 1: "wfUsed w h (markCells (used a) (cells piece))" using wf by (rule wfUsed_markCells)
  have 2: "usedAt (markCells (used a) (cells piece)) (fst rc) (snd rc) \<longleftrightarrow>
           rc \<in> covered (pieces a @ [piece])" if "inField w h rc" for rc
  proof -
    from that have "inField w h (fst rc, snd rc)" by simp
    from usedAt_markCells [OF wf vin this] cov [OF that]
    show ?thesis by (simp add: covered_snoc Un_commute)
  qed
  have 3: "inField w h rc" if "rc \<in> covered (pieces a @ [piece])" for rc
  proof -
    from that have "rc \<in> covered (pieces a) \<or> rc \<in> set (cells piece)"
      by (simp add: covered_snoc)
    then show ?thesis using inf [of rc] vin by blast
  qed
  have disj: "set (concat (map cells (pieces a))) \<inter> set (cells piece) = {}"
  proof -
    have "rc \<notin> covered (pieces a)" if "rc \<in> set (cells piece)" for rc
      using that v cov [of rc] by (auto simp: validCells_def)
    then show ?thesis by (auto simp: covered_def)
  qed
  have 4: "distinct (concat (map cells (pieces a @ [piece])))"
    using dis d disj by simp
  have "groundedOn h (cells piece) (covered (pieces a))"
    unfolding groundedOn_def
  proof (intro ballI, clarify)
    fix r c
    assume m: "(r, c) \<in> set (cells piece)"
      and low: "\<forall>(r', c') \<in> set (cells piece). c' = c \<longrightarrow> r' \<le> r"
      and nb: "(r + 1, c) \<notin> covered (pieces a)"
    from isPieceGrounded_bottom [OF g m low]
    have b: "r = int h - 1 \<or> usedAt (used a) (r + 1) c" .
    show "r = int h - 1"
    proof (rule ccontr)
      assume n: "r \<noteq> int h - 1"
      from m vin have "inField w h (r, c)" by blast
      with n have "inField w h (r + 1, c)" by (auto simp: inField_def)
      from cov [OF this] b n nb show False by simp
    qed
  qed
  with gs have 5: "groundedSeq h (pieces a @ [piece])" by (rule groundedSeq_snoc)
  from 1 2 3 4 5 show ?thesis by (simp add: layoutInv_def)
qed

lemma layoutInv_fillCell:
  assumes srt: "sortArranges arraySort" and inv: "layoutInv w h a"
  shows "layoutInv w h (fillCell arraySort w h a rc)"
proof -
  obtain row col where rc: "rc = (row, col)" by (cases rc)
  obtain types seed1 where s: "sortRandom arraySort tetrominoTypes (rseed a) = (types, seed1)"
    by (cases "sortRandom arraySort tetrominoTypes (rseed a)")
  obtain res seed2 where t: "tryTypes arraySort w h (used a) row col types seed1 = (res, seed2)"
    by (cases "tryTypes arraySort w h (used a) row col types seed1")
  have keep: "layoutInv w h (a\<lparr>rseed := x\<rparr>)" "layoutInv w h (a\<lparr>failed := True, rseed := x\<rparr>)" for x
    using inv by (simp_all add: layoutInv_def)
  show ?thesis
  proof (cases res)
    case None
    with rc s t inv keep show ?thesis by (simp add: fillCell_def)
  next
    case (Some piece)
    from tryTypes_Some [OF srt t [unfolded Some]] inv
    have "layoutInv w h (a\<lparr>used := markCells (used a) (cells piece),
                            pieces := pieces a @ [piece], rseed := seed2\<rparr>)"
      by (intro layoutInv_place) simp_all
    with Some rc s t inv show ?thesis by (simp add: fillCell_def)
  qed
qed

lemma layoutInv_foldl:
  assumes "sortArranges arraySort"
  shows "layoutInv w h a \<Longrightarrow> layoutInv w h (foldl (fillCell arraySort w h) a xs)"
  by (induction xs arbitrary: a) (simp_all add: layoutInv_fillCell [OF assms])

lemma layoutInv_initial:
  "layoutInv w h \<lparr>used = emptyField w h, pieces = [], failed = False, rseed = seed\<rparr>"
  using usedAt_emptyField [of w h]
  by (auto simp: layoutInv_def wfUsed_emptyField covered_def groundedSeq_def)

lemma isComplete_usedAt:
  assumes "isComplete w h u" and "inField w h rc"
  shows "usedAt u (fst rc) (snd rc)"
proof -
  from assms(2) have "nat (fst rc) < h" "nat (snd rc) < w" "int (nat (fst rc)) = fst rc"
    "int (nat (snd rc)) = snd rc"
    by (auto simp: inField_def)
  with assms(1) show ?thesis
    by (metis atLeast0LessThan isComplete_def lessThan_iff list_all_iff set_upt)
qed

lemma tryGenerate_Some:
  assumes "sortArranges arraySort"
  shows "tryGenerate arraySort w h n seed = (Some ps, seed') \<Longrightarrow> isLayout w h ps"
proof (induction n arbitrary: seed)
  case 0
  then show ?case by simp
next
  case (Suc n)
  let ?a = "foldl (fillCell arraySort w h)
              \<lparr>used = emptyField w h, pieces = [], failed = False, rseed = seed\<rparr>
              (scanOrder w h)"
  show ?case
  proof (cases "\<not> failed ?a \<and> isComplete w h (used ?a)")
    case True
    with Suc.prems have ps: "ps = pieces ?a" by (simp add: Let_def)
    have inv: "layoutInv w h ?a"
      using assms layoutInv_initial by (rule layoutInv_foldl)
    have "covered (pieces ?a) = {rc. inField w h rc}"
    proof (intro equalityI subsetI)
      fix rc assume "rc \<in> covered (pieces ?a)"
      with inv show "rc \<in> {rc. inField w h rc}" by (simp add: layoutInv_def)
    next
      fix rc assume "rc \<in> {rc. inField w h rc}"
      then have i: "inField w h rc" by simp
      from True have "isComplete w h (used ?a)" by simp
      from isComplete_usedAt [OF this i] inv i show "rc \<in> covered (pieces ?a)"
        by (simp add: layoutInv_def)
    qed
    with inv show ?thesis unfolding ps by (simp add: isLayout_def layoutInv_def)
  next
    case False
    with Suc.prems have "tryGenerate arraySort w h n (rseed ?a) = (Some ps, seed')"
      by (auto simp: Let_def split: if_splits)
    then show ?thesis by (rule Suc.IH)
  qed
qed

lemma fallbackCheck_10_16: "fallbackCheck 10 16"
  by code_simp

lemma groundedFrom_sound:
  "groundedFrom h below ps \<Longrightarrow> i < length ps \<Longrightarrow>
   groundedOn h (cells (ps ! i)) (set below \<union> covered (take i ps))"
proof (induction ps arbitrary: below i)
  case Nil
  then show ?case by simp
next
  case (Cons p ps)
  show ?case
  proof (cases i)
    case 0
    with Cons.prems show ?thesis by (simp add: covered_def)
  next
    case (Suc k)
    with Cons.prems have "groundedFrom h (below @ cells p) ps" "k < length ps" by simp_all
    from Cons.IH [OF this] Suc show ?thesis
      by (simp add: covered_def Un_assoc)
  qed
qed

lemma inField_set: "{rc. inField w h rc} = {0..<int h} \<times> {0..<int w}"
  by (auto simp: inField_def)

lemma cover_by_count:
  assumes "distinct cs" and "\<forall>rc \<in> set cs. inField w h rc" and "length cs = w * h"
  shows "set cs = {rc. inField w h rc}"
proof (rule card_subset_eq)
  show "finite {rc. inField w h rc}" by (simp add: inField_set)
  show "set cs \<subseteq> {rc. inField w h rc}" using assms(2) by auto
  have "card (set cs) = w * h" using assms(1,3) by (simp add: distinct_card)
  then show "card (set cs) = card {rc. inField w h rc}"
    by (simp add: inField_set card_cartesian_product)
qed

lemma fallbackCheck_isLayout:
  assumes "fallbackCheck w h"
  shows "isLayout w h (generateFallbackLayout w h)"
proof -
  let ?ps = "generateFallbackLayout w h"
  from assms have d: "distinct (concat (map cells ?ps))"
    and i: "\<forall>rc \<in> set (concat (map cells ?ps)). inField w h rc"
    and l: "length (concat (map cells ?ps)) = w * h"
    and g: "groundedFrom h [] ?ps"
    by (simp_all add: fallbackCheck_def Let_def)
  from cover_by_count [OF d i l] have "covered ?ps = {rc. inField w h rc}"
    by (simp add: covered_def)
  moreover have "groundedSeq h ?ps"
    unfolding groundedSeq_def using groundedFrom_sound [OF g] by simp
  ultimately show ?thesis using d by (simp add: isLayout_def)
qed

lemma generatePieceLayout_isLayout:
  assumes "sortArranges arraySort"
  shows "isLayout FIELD_WIDTH FIELD_HEIGHT
           (fst (generatePieceLayout arraySort FIELD_WIDTH FIELD_HEIGHT seed env))"
proof (cases "tryGenerate arraySort FIELD_WIDTH FIELD_HEIGHT 50 seed")
  case (Pair res seed')
  show ?thesis
  proof (cases res)
    case None
    with Pair have "fst (generatePieceLayout arraySort FIELD_WIDTH FIELD_HEIGHT seed env) =
                    generateFallbackLayout FIELD_WIDTH FIELD_HEIGHT"
      by (simp add: generatePieceLayout_def)
    with fallbackCheck_isLayout [OF fallbackCheck_10_16] show ?thesis
      by (simp add: FIELD_WIDTH_def FIELD_HEIGHT_def)
  next
    case (Some ps)
    with Pair have "fst (generatePieceLayout arraySort FIELD_WIDTH FIELD_HEIGHT seed env) = ps"
      by (simp add: generatePieceLayout_def)
    with tryGenerate_Some [OF assms Pair [unfolded Some]] show ?thesis by simp
  qed
qed

lemma exampleSort_arranges: "sortArranges exampleSort"
  by (simp add: sortArranges_def exampleSort_def)

text \<open>
  C5. On the field of the game, 10 columns by 16 rows, and for every integer seed,
  the cells of the pieces returned by \<open>generatePieceLayout\<close> are pairwise different
  and are exactly the 160 cells of the field; when all 50 attempts fail the result is
  the fallback tiling, which covers the field in the same way. The sort procedure
  of the host returns a rearrangement of its array.
\<close>

theorem layout_covers_field:
  assumes "sortArranges arraySort"
  shows "(let ps = fst (generatePieceLayout arraySort FIELD_WIDTH FIELD_HEIGHT seed env)
          in distinct (concat (map cells ps)) \<and>
             set (concat (map cells ps)) = {0..<16} \<times> {0..<10}) \<and>
         (fst (tryGenerate arraySort FIELD_WIDTH FIELD_HEIGHT 50 seed) = None \<longrightarrow>
            fst (generatePieceLayout arraySort FIELD_WIDTH FIELD_HEIGHT seed env) =
              generateFallbackLayout FIELD_WIDTH FIELD_HEIGHT) \<and>
         distinct (concat (map cells (generateFallbackLayout FIELD_WIDTH FIELD_HEIGHT))) \<and>
         set (concat (map cells (generateFallbackLayout FIELD_WIDTH FIELD_HEIGHT))) =
           {0..<16} \<times> {0..<10}"
proof -
  have f: "{rc. inField FIELD_WIDTH FIELD_HEIGHT rc} = {0..<16} \<times> {0..<10}"
    by (simp add: inField_set FIELD_WIDTH_def FIELD_HEIGHT_def)
  from generatePieceLayout_isLayout [OF assms, of seed env]
  have 1: "let ps = fst (generatePieceLayout arraySort FIELD_WIDTH FIELD_HEIGHT seed env)
          in distinct (concat (map cells ps)) \<and>
             set (concat (map cells ps)) = {0..<16} \<times> {0..<10}"
    by (simp add: isLayout_def covered_def f Let_def)
  have 2: "fst (tryGenerate arraySort FIELD_WIDTH FIELD_HEIGHT 50 seed) = None \<longrightarrow>
            fst (generatePieceLayout arraySort FIELD_WIDTH FIELD_HEIGHT seed env) =
              generateFallbackLayout FIELD_WIDTH FIELD_HEIGHT"
    by (auto simp: generatePieceLayout_def split: prod.splits option.splits)
  from fallbackCheck_isLayout [OF fallbackCheck_10_16]
  have 3: "distinct (concat (map cells (generateFallbackLayout FIELD_WIDTH FIELD_HEIGHT))) \<and>
         set (concat (map cells (generateFallbackLayout FIELD_WIDTH FIELD_HEIGHT))) =
           {0..<16} \<times> {0..<10}"
    using f by (simp add: isLayout_def covered_def FIELD_WIDTH_def FIELD_HEIGHT_def)
  from 1 2 3 show ?thesis by blast
qed

theorem layout_covers_field_witness:
  "sortArranges exampleSort \<and>
   (let ps = fst (generatePieceLayout exampleSort FIELD_WIDTH FIELD_HEIGHT 0 exampleEnv)
    in distinct (concat (map cells ps)) \<and>
       set (concat (map cells ps)) = {0..<16} \<times> {0..<10})"
  using layout_covers_field [OF exampleSort_arranges, of 0 exampleEnv] exampleSort_arranges by simp

text \<open>
  C6. On the field of the game and for every integer seed, each returned piece is
  grounded on the pieces before it in the sequence: a cell of the piece that is the
  lowest of the piece in its column is in the bottom row or has directly below it a
  cell of an earlier piece.
\<close>

theorem layout_grounded:
  assumes "sortArranges arraySort"
  shows "let ps = fst (generatePieceLayout arraySort FIELD_WIDTH FIELD_HEIGHT seed env)
         in \<forall>i < length ps.
              \<forall>(r, c) \<in> set (cells (ps ! i)).
                (\<forall>(r', c') \<in> set (cells (ps ! i)). c' = c \<longrightarrow> r' \<le> r) \<longrightarrow>
                r = int FIELD_HEIGHT - 1 \<or>
                (r + 1, c) \<in> set (concat (map cells (take i ps)))"
  using generatePieceLayout_isLayout [OF assms, of seed env]
  by (simp add: isLayout_def groundedSeq_def groundedOn_def covered_def Let_def)

theorem layout_grounded_witness:
  "sortArranges exampleSort \<and>
   (let ps = fst (generatePieceLayout exampleSort FIELD_WIDTH FIELD_HEIGHT 0 exampleEnv)
    in 0 < length ps \<and>
       (\<forall>(r, c) \<in> set (cells (ps ! 0)).
          (\<forall>(r', c') \<in> set (cells (ps ! 0)). c' = c \<longrightarrow> r' \<le> r) \<longrightarrow>
          r = int FIELD_HEIGHT - 1))"
proof -
  let ?ps = "fst (generatePieceLayout exampleSort FIELD_WIDTH FIELD_HEIGHT 0 exampleEnv)"
  have "(0, 0) \<in> {rc. inField FIELD_WIDTH FIELD_HEIGHT rc}"
    by (simp add: inField_def FIELD_WIDTH_def FIELD_HEIGHT_def)
  with generatePieceLayout_isLayout [OF exampleSort_arranges, of 0 exampleEnv]
  have "(0, 0) \<in> covered ?ps" by (simp add: isLayout_def)
  then have ne: "0 < length ?ps" by (auto simp: covered_def)
  from layout_grounded [OF exampleSort_arranges, of 0 exampleEnv]
  have "\<forall>i < length ?ps.
          \<forall>(r, c) \<in> set (cells (?ps ! i)).
            (\<forall>(r', c') \<in> set (cells (?ps ! i)). c' = c \<longrightarrow> r' \<le> r) \<longrightarrow>
            r = int FIELD_HEIGHT - 1 \<or> (r + 1, c) \<in> set (concat (map cells (take i ?ps)))"
    by (simp add: Let_def)
  with ne
  have "\<forall>(r, c) \<in> set (cells (?ps ! 0)).
          (\<forall>(r', c') \<in> set (cells (?ps ! 0)). c' = c \<longrightarrow> r' \<le> r) \<longrightarrow>
          r = int FIELD_HEIGHT - 1 \<or> (r + 1, c) \<in> set (concat (map cells (take 0 ?ps)))"
    by blast
  then have "\<forall>(r, c) \<in> set (cells (?ps ! 0)).
          (\<forall>(r', c') \<in> set (cells (?ps ! 0)). c' = c \<longrightarrow> r' \<le> r) \<longrightarrow>
          r = int FIELD_HEIGHT - 1"
    by simp
  with ne exampleSort_arranges show ?thesis by (simp add: Let_def)
qed

end
